theory Spec2Isabelle
  imports Main
begin

section \<open>The link provider of Zettlr: link index, graph builder, component labeler\<close>

text \<open>
  The development embeds \<^verbatim>\<open>src/source/app/service-providers/links/index.ts\<close>
  (class \<^verbatim>\<open>LinkProvider\<close>). The two collaborators the class calls but does not
  define are parameters of the model:
  \<^item> \<open>findExact\<close>: \<^verbatim>\<open>this._app.fsal.findExact(link)\<close>, followed by \<^verbatim>\<open>.path\<close>:
    the canonical path of a raw link, or \<open>None\<close> for \<^verbatim>\<open>undefined\<close>;
  \<^item> \<open>basename\<close>: \<^verbatim>\<open>path.basename\<close> of the Node library.
  The logger and \<^verbatim>\<open>performance.now()\<close> touch neither the index nor the graph
  and are left out; \<^verbatim>\<open>broadcastIpcMessage\<close> is kept as a log of the topics sent.
\<close>

subsection \<open>JavaScript containers\<close>

text \<open>
  A JavaScript \<^verbatim>\<open>Map\<close> iterates in insertion order, so it is an association list.
  \<^verbatim>\<open>set\<close> on a key that is present replaces the value in place, on a new key it
  appends; \<^verbatim>\<open>delete\<close> drops the entry of the key.
\<close>

type_synonym ('k, 'v) jsmap = "('k \<times> 'v) list"

fun map_has :: "('k, 'v) jsmap \<Rightarrow> 'k \<Rightarrow> bool" where
  "map_has [] k = False"
| "map_has ((k', v') # m) k = (if k' = k then True else map_has m k)"

fun map_get :: "('k, 'v) jsmap \<Rightarrow> 'k \<Rightarrow> 'v option" where
  "map_get [] k = None"
| "map_get ((k', v') # m) k = (if k' = k then Some v' else map_get m k)"

fun map_set :: "('k, 'v) jsmap \<Rightarrow> 'k \<Rightarrow> 'v \<Rightarrow> ('k, 'v) jsmap" where
  "map_set [] k v = [(k, v)]"
| "map_set ((k', v') # m) k v = (if k' = k then (k, v) # m else (k', v') # map_set m k v)"

fun map_delete :: "('k, 'v) jsmap \<Rightarrow> 'k \<Rightarrow> ('k, 'v) jsmap" where
  "map_delete [] k = []"
| "map_delete ((k', v') # m) k = (if k' = k then map_delete m k else (k', v') # map_delete m k)"

text \<open>The keys of a \<^verbatim>\<open>Map\<close> are unique; every state built by \<open>map_set\<close> and
  \<open>map_delete\<close> from the empty map is of this kind.\<close>

definition wf_map :: "('k, 'v) jsmap \<Rightarrow> bool" where
  "wf_map m = distinct (map fst m)"

text \<open>\<^verbatim>\<open>Array.prototype.find\<close> returns the first element that satisfies the
  predicate. The callers below go on to mutate the object found, so the model returns
  its position in the array (the reference), \<open>None\<close> for \<^verbatim>\<open>undefined\<close>.\<close>

fun find_ref :: "('a \<Rightarrow> bool) \<Rightarrow> 'a list \<Rightarrow> nat option" where
  "find_ref P [] = None"
| "find_ref P (x # xs) =
     (if P x then Some 0 else (case find_ref P xs of None \<Rightarrow> None | Some i \<Rightarrow> Some (Suc i)))"

text \<open>\<^verbatim>\<open>new Set(xs)\<close> keeps the first occurrence of every element, in order.\<close>

fun new_Set :: "'a list \<Rightarrow> 'a list \<Rightarrow> 'a list" where
  "new_Set acc [] = acc"
| "new_Set acc (x # xs) = (if x \<in> set acc then new_Set acc xs else new_Set (acc @ [x]) xs)"

text \<open>The decimal rendering of a number inside a template literal.\<close>

definition digit_char :: "nat \<Rightarrow> char" where
  "digit_char d = char_of (48 + d)"

function string_of_nat :: "nat \<Rightarrow> string" where
  "string_of_nat n =
     (if n < 10 then [digit_char n] else string_of_nat (n div 10) @ [digit_char (n mod 10)])"
  by pat_completeness auto
termination
  by (relation "measure (\<lambda>n. n)") auto

subsection \<open>The link index\<close>

record LinkProvider =
  fileLinkDatabase :: "(string, string list) jsmap"
  idLinkDatabase :: "(string, string list) jsmap"
  broadcasts :: "string list"

text \<open>The constructor: both maps empty.\<close>

definition new_LinkProvider :: LinkProvider where
  "new_LinkProvider = \<lparr>fileLinkDatabase = [], idLinkDatabase = [], broadcasts = []\<rparr>"

definition broadcastIpcMessage :: "string \<Rightarrow> LinkProvider \<Rightarrow> LinkProvider" where
  "broadcastIpcMessage topic p = p\<lparr>broadcasts := broadcasts p @ [topic]\<rparr>"

text \<open>An optional \<^verbatim>\<open>sourceID\<close> is \<open>None\<close> for \<^verbatim>\<open>undefined\<close>; both methods
  start by turning the empty string into \<^verbatim>\<open>undefined\<close>.\<close>

definition normalize_id :: "string option \<Rightarrow> string option" where
  "normalize_id sourceID = (if sourceID = Some [] then None else sourceID)"

text \<open>The loop of \<^verbatim>\<open>report\<close> that resolves the raw links, pushing every path found.\<close>

fun resolve_links :: "(string \<Rightarrow> string option) \<Rightarrow> string list \<Rightarrow> string list \<Rightarrow> string list" where
  "resolve_links findExact resolved [] = resolved"
| "resolve_links findExact resolved (link # outboundLinks) =
     (case findExact link of
        None \<Rightarrow> resolve_links findExact resolved outboundLinks
      | Some found \<Rightarrow> resolve_links findExact (resolved @ [found]) outboundLinks)"

definition report ::
  "(string \<Rightarrow> string option) \<Rightarrow> string \<Rightarrow> string list \<Rightarrow> string option \<Rightarrow> LinkProvider \<Rightarrow> LinkProvider"
where
  "report findExact sourcePath outboundLinks sourceID p =
     (let sourceID' = normalize_id sourceID;
          resolved = resolve_links findExact [] outboundLinks;
          p1 = p\<lparr>fileLinkDatabase := map_set (fileLinkDatabase p) sourcePath resolved\<rparr>;
          p2 = (case sourceID' of
                  None \<Rightarrow> p1
                | Some i \<Rightarrow> p1\<lparr>idLinkDatabase := map_set (idLinkDatabase p1) i resolved\<rparr>)
      in broadcastIpcMessage ''links'' p2)"

definition remove :: "string \<Rightarrow> string option \<Rightarrow> LinkProvider \<Rightarrow> LinkProvider" where
  "remove sourcePath sourceID p =
     (let sourceID' = normalize_id sourceID;
          p1 = (if map_has (fileLinkDatabase p) sourcePath
                then p\<lparr>fileLinkDatabase := map_delete (fileLinkDatabase p) sourcePath\<rparr>
                else p);
          p2 = (case sourceID' of
                  None \<Rightarrow> p1
                | Some i \<Rightarrow>
                    if map_has (idLinkDatabase p1) i
                    then p1\<lparr>idLinkDatabase := map_delete (idLinkDatabase p1) i\<rparr>
                    else p1)
      in broadcastIpcMessage ''links'' p2)"

text \<open>The scan of \<^verbatim>\<open>retrieveInbound\<close> over the entries, in insertion order.\<close>

fun inbound_scan :: "string \<Rightarrow> string list \<Rightarrow> (string, string list) jsmap \<Rightarrow> string list" where
  "inbound_scan sourceFilePath sourceFiles [] = sourceFiles"
| "inbound_scan sourceFilePath sourceFiles ((file, outbound) # entries) =
     (if sourceFilePath \<in> set outbound
      then inbound_scan sourceFilePath (sourceFiles @ [file]) entries
      else inbound_scan sourceFilePath sourceFiles entries)"

definition retrieveInbound :: "string \<Rightarrow> LinkProvider \<Rightarrow> string list" where
  "retrieveInbound sourceFilePath p = inbound_scan sourceFilePath [] (fileLinkDatabase p)"

definition retrieveOutbound :: "string \<Rightarrow> LinkProvider \<Rightarrow> string list" where
  "retrieveOutbound sourceFilePath p =
     (case map_get (fileLinkDatabase p) sourceFilePath of None \<Rightarrow> [] | Some outbound \<Rightarrow> outbound)"

subsection \<open>The graph\<close>

text \<open>The types of \<^verbatim>\<open>@dts/common/graph\<close>, with the fields the class reads and writes.
  The field \<^verbatim>\<open>id\<close> is \<open>id'\<close> here.\<close>

definition NONE_COMPONENT :: string where
  "NONE_COMPONENT = ''Files''"

record GraphVertex =
  id' :: string
  label :: string
  component :: string
  isolate :: bool

record GraphEdge =
  source :: string
  target :: string
  weight :: nat

record LinkGraph =
  nodes :: "GraphVertex list"
  links :: "GraphEdge list"
  components :: "string list"

text \<open>What a call can throw: \<^verbatim>\<open>new Error('Didnt find node')\<close> of \<^verbatim>\<open>buildGraph\<close>, and the
  \<^verbatim>\<open>TypeError\<close> of reading \<^verbatim>\<open>.component\<close> of \<^verbatim>\<open>undefined\<close>.\<close>

datatype error = DidntFindNode | TypeError

subsection \<open>The component labeler\<close>

text \<open>
  \<^verbatim>\<open>identifyComponents\<close> mutates the \<^verbatim>\<open>component\<close> fields of the vertices and the
  local array \<^verbatim>\<open>components\<close>; the two are the state threaded through the visits.
  A vertex reference is its position in \<^verbatim>\<open>graph.nodes\<close>, \<open>None\<close> the
  \<^verbatim>\<open>undefined\<close> that \<^verbatim>\<open>find\<close> returns (the cast \<^verbatim>\<open>as GraphVertex\<close> does not check).
  Reading \<^verbatim>\<open>.component\<close> of \<^verbatim>\<open>undefined\<close> throws; a position past the end of the
  array, which neither \<^verbatim>\<open>find\<close> nor \<^verbatim>\<open>forEach\<close> produces, is treated the same way.
\<close>

type_synonym labeling = "GraphVertex list \<times> string list"

text \<open>The number of vertices without a component: the measure of the recursion.\<close>

definition unassigned :: "GraphVertex list \<Rightarrow> nat" where
  "unassigned ns = length (filter (\<lambda>v. component v = NONE_COMPONENT) ns)"

text \<open>The \<^verbatim>\<open>filter\<close> and the first \<^verbatim>\<open>map\<close> of \<^verbatim>\<open>allTargets\<close>: for every link that has the
  vertex as its source or target, the identifier at the other end.\<close>

definition opposite_ends :: "GraphEdge list \<Rightarrow> string \<Rightarrow> string list" where
  "opposite_ends ls sid =
     map (\<lambda>link. if target link = sid then source link else target link)
       (filter (\<lambda>link. source link = sid \<or> target link = sid) ls)"

text \<open>The component a visit assigns: the one handed down, or a fresh one when the visit
  is a top-level one (\<^verbatim>\<open>component === undefined\<close>).\<close>

definition component_name :: "nat \<Rightarrow> string" where
  "component_name n = ''Component '' @ string_of_nat n"

definition set_component :: "GraphVertex list \<Rightarrow> nat \<Rightarrow> string \<Rightarrow> GraphVertex list" where
  "set_component ns i c = ns[i := (ns ! i)\<lparr>component := c\<rparr>]"

definition all_targets :: "GraphEdge list \<Rightarrow> GraphVertex list \<Rightarrow> nat \<Rightarrow> nat option list" where
  "all_targets ls ns i =
     map (\<lambda>link. find_ref (\<lambda>node. id' node = link) ns) (opposite_ends ls (id' (ns ! i)))"

function visit :: "GraphEdge list \<Rightarrow> labeling \<Rightarrow> nat option \<Rightarrow> string option \<Rightarrow> error + labeling"
  and visit_each :: "GraphEdge list \<Rightarrow> labeling \<Rightarrow> nat option list \<Rightarrow> string option \<Rightarrow> error + labeling"
where
  "visit ls (ns, cs) None cmp = Inl TypeError"
| "visit ls (ns, cs) (Some i) cmp =
     (if length ns \<le> i then Inl TypeError
      else if component (ns ! i) \<noteq> NONE_COMPONENT \<or> Some (component (ns ! i)) = cmp
      then Inr (ns, cs)
      else
        (let c = (case cmp of None \<Rightarrow> component_name (length cs + 1) | Some c' \<Rightarrow> c');
             cs' = (case cmp of None \<Rightarrow> cs @ [c] | Some c' \<Rightarrow> cs);
             ns' = set_component ns i c
         in visit_each ls (ns', cs') (all_targets ls ns' i) (Some c)))"
| "visit_each ls st [] cmp = Inr st"
| "visit_each ls st (t # ts) cmp =
     (case visit ls st t cmp of
        Inl e \<Rightarrow> Inl e
      | Inr st' \<Rightarrow> visit_each ls st' ts cmp)"
  by pat_completeness auto

text \<open>Termination: a visit that goes on assigns a component to a vertex that had none,
  and no visit takes a component away.\<close>

lemma NONE_COMPONENT_not_name: "component_name n \<noteq> NONE_COMPONENT"
  by (simp add: component_name_def NONE_COMPONENT_def)

lemma unassigned_set_component:
  assumes "i < length ns" "component (ns ! i) = NONE_COMPONENT" "c \<noteq> NONE_COMPONENT"
  shows "unassigned (set_component ns i c) < unassigned ns"
  using assms
proof (induction ns arbitrary: i)
  case Nil
  then show ?case by simp
next
  case (Cons v ns)
  show ?case
  proof (cases i)
    case 0
    with Cons.prems show ?thesis
      by (simp add: unassigned_def set_component_def)
  next
    case (Suc j)
    with Cons.prems Cons.IH[of j] show ?thesis
      by (simp add: unassigned_def set_component_def)
  qed
qed

lemma visit_unassigned_partial:
  "visit_visit_each_dom (Inl (ls, st, t, cmp)) \<Longrightarrow>
     visit ls st t cmp = Inr st' \<Longrightarrow> unassigned (fst st') \<le> unassigned (fst st)"
  "visit_visit_each_dom (Inr (ls, st, ts, cmp)) \<Longrightarrow>
     visit_each ls st ts cmp = Inr st' \<Longrightarrow> unassigned (fst st') \<le> unassigned (fst st)"
proof (induction ls st t cmp and ls st ts cmp arbitrary: st' and st' rule: visit_visit_each.pinduct)
  case (1 ls ns cs cmp)
  then show ?case by (simp add: visit.psimps)
next
  case (2 ls ns cs i cmp)
  show ?case
  proof (cases "length ns \<le> i \<or> component (ns ! i) \<noteq> NONE_COMPONENT \<or> Some (component (ns ! i)) = cmp")
    case True
    with 2 show ?thesis by (auto simp: visit.psimps split: if_splits)
  next
    case False
    define c where "c = (case cmp of None \<Rightarrow> component_name (length cs + 1) | Some c' \<Rightarrow> c')"
    define cs' where "cs' = (case cmp of None \<Rightarrow> cs @ [c] | Some c' \<Rightarrow> cs)"
    have cne: "c \<noteq> NONE_COMPONENT"
      using False by (auto simp: c_def NONE_COMPONENT_not_name split: option.splits)
    from False "2.prems" "2.hyps" have
      run: "visit_each ls (set_component ns i c, cs') (all_targets ls (set_component ns i c) i) (Some c) = Inr st'"
      unfolding c_def cs'_def by (simp add: visit.psimps Let_def)
    have "unassigned (fst st') \<le> unassigned (set_component ns i c)"
      using "2.IH"[OF _ _ c_def cs'_def refl run] False by simp
    also have "\<dots> < unassigned ns"
      using False cne by (intro unassigned_set_component) auto
    finally show ?thesis by simp
  qed
next
  case (3 ls st cmp)
  then show ?case by (simp add: visit_each.psimps)
next
  case (4 ls st t ts cmp)
  from "4.prems" "4.hyps" obtain st1 where
    v: "visit ls st t cmp = Inr st1" and r: "visit_each ls st1 ts cmp = Inr st'"
    by (auto simp: visit_each.psimps split: sum.splits)
  from "4.IH"(1)[OF v] "4.IH"(2)[OF v r] show ?case by simp
qed

termination visit
proof (relation "measures [\<lambda>x. case x of Inl (ls, st, t, cmp) \<Rightarrow> unassigned (fst st) | Inr (ls, st, ts, cmp) \<Rightarrow> unassigned (fst st),
                           \<lambda>x. case x of Inl (ls, st, t, cmp) \<Rightarrow> 0 | Inr (ls, st, ts, cmp) \<Rightarrow> Suc (length ts)]", goal_cases)
  case 1
  then show ?case by simp
next
  case (2 ls ns cs i cmp c cs' ns')
  then show ?case
    using unassigned_set_component[of i ns c]
    by (auto simp: NONE_COMPONENT_not_name split: option.splits)
next
  case (3 ls st t ts cmp)
  then show ?case by simp
next
  case (4 ls st t ts cmp st1)
  then show ?case
    using visit_unassigned_partial(1)[of ls st t cmp st1] by auto
qed


text \<open>\<^verbatim>\<open>graph.nodes.forEach((node, idx) => { visit(node) })\<close>\<close>

fun forEach_visit :: "GraphEdge list \<Rightarrow> labeling \<Rightarrow> nat list \<Rightarrow> error + labeling" where
  "forEach_visit ls st [] = Inr st"
| "forEach_visit ls st (idx # rest) =
     (case visit ls st (Some idx) None of
        Inl e \<Rightarrow> Inl e
      | Inr st' \<Rightarrow> forEach_visit ls st' rest)"

text \<open>The result is the array \<^verbatim>\<open>components\<close>; the graph is returned with it, since its
  vertices have been relabelled in place.\<close>

definition identifyComponents :: "LinkGraph \<Rightarrow> error + (LinkGraph \<times> string list)" where
  "identifyComponents graph =
     (case forEach_visit (links graph) (nodes graph, []) [0..<length (nodes graph)] of
        Inl e \<Rightarrow> Inl e
      | Inr (ns, cs) \<Rightarrow> Inr (graph\<lparr>nodes := ns\<rparr>, cs))"

subsection \<open>The graph builder\<close>

text \<open>The first loop of \<^verbatim>\<open>buildGraph\<close>, over the entries of the file database.\<close>

fun collect_entries :: "(string \<Rightarrow> string) \<Rightarrow> LinkGraph \<Rightarrow> (string, string list) jsmap \<Rightarrow> LinkGraph" where
  "collect_entries basename graph [] = graph"
| "collect_entries basename graph ((file, outbound) # entries) =
     (let foundVertex = find_ref (\<lambda>vertex. id' vertex = file) (nodes graph);
          g1 = (if foundVertex = None
                then graph\<lparr>nodes := nodes graph @
                       [\<lparr>id' = file, label = basename file,
                         component = NONE_COMPONENT, isolate = True\<rparr>]\<rparr>
                else graph);
          g2 = g1\<lparr>links := links g1 @
                 map (\<lambda>target. \<lparr>source = file, target = target, weight = 1\<rparr>) outbound\<rparr>
      in collect_entries basename g2 entries)"

text \<open>The two loops that clear \<^verbatim>\<open>isolate\<close>, over the set of sources and the set of
  targets: the first identifier without a vertex throws.\<close>

fun clear_isolate :: "GraphVertex list \<Rightarrow> string list \<Rightarrow> error + GraphVertex list" where
  "clear_isolate ns [] = Inr ns"
| "clear_isolate ns (endpoint # rest) =
     (case find_ref (\<lambda>node. id' node = endpoint) ns of
        None \<Rightarrow> Inl DidntFindNode
      | Some i \<Rightarrow> clear_isolate (ns[i := (ns ! i)\<lparr>isolate := False\<rparr>]) rest)"

definition buildGraph :: "(string \<Rightarrow> string) \<Rightarrow> LinkProvider \<Rightarrow> error + LinkGraph" where
  "buildGraph basename p =
     (let graph = collect_entries basename \<lparr>nodes = [], links = [], components = []\<rparr>
                    (fileLinkDatabase p);
          sources = new_Set [] (map source (links graph));
          targets = new_Set [] (map target (links graph))
      in case clear_isolate (nodes graph) sources of
           Inl e \<Rightarrow> Inl e
         | Inr ns1 \<Rightarrow>
             (case clear_isolate ns1 targets of
                Inl e \<Rightarrow> Inl e
              | Inr ns2 \<Rightarrow>
                  (case identifyComponents (graph\<lparr>nodes := ns2\<rparr>) of
                     Inl e \<Rightarrow> Inl e
                   | Inr (graph', cs) \<Rightarrow> Inr (graph'\<lparr>components := cs\<rparr>))))"

subsection \<open>Reference notions the properties are stated with\<close>

text \<open>The resolved sequence in the words of the specification: every raw token mapped
  through the resolver, the tokens it fails on dropped, order and duplicates kept.\<close>

definition resolved_sequence :: "(string \<Rightarrow> string option) \<Rightarrow> string list \<Rightarrow> string list" where
  "resolved_sequence findExact raw = map the (filter (\<lambda>r. r \<noteq> None) (map findExact raw))"

text \<open>A resolver for the scenarios: it knows a list of paths and resolves exactly
  these, each to itself.\<close>

definition known_paths :: "string list \<Rightarrow> string \<Rightarrow> string option" where
  "known_paths files token = (if token \<in> set files then Some token else None)"

text \<open>Two identifiers are adjacent when a link joins them, in either direction; they are
  connected when a path of adjacent identifiers leads from one to the other.\<close>

definition adjacent :: "GraphEdge list \<Rightarrow> string \<Rightarrow> string \<Rightarrow> bool" where
  "adjacent ls a b =
     (\<exists>link \<in> set ls. (source link = a \<and> target link = b) \<or> (source link = b \<and> target link = a))"

definition connected :: "GraphEdge list \<Rightarrow> string \<Rightarrow> string \<Rightarrow> bool" where
  "connected ls a b = ((a, b) \<in> {(x, y). adjacent ls x y}\<^sup>*)"

text \<open>Every end of every link has a vertex.\<close>

definition links_closed :: "GraphEdge list \<Rightarrow> GraphVertex list \<Rightarrow> bool" where
  "links_closed ls ns =
     (\<forall>link \<in> set ls. source link \<in> set (map id' ns) \<and> target link \<in> set (map id' ns))"

text \<open>
  While the vertices of a component are being visited, the vertices in \<open>G\<close> are the ones
  whose visit has begun and not ended. The invariant: a vertex with a component that is
  not in \<open>G\<close> has all its neighbours in the same component; the vertices in \<open>G\<close> carry
  the current component \<open>c\<close>; and two vertices of one component are connected.
\<close>

definition labeling_inv :: "GraphEdge list \<Rightarrow> GraphVertex list \<Rightarrow> nat set \<Rightarrow> string \<Rightarrow> bool" where
  "labeling_inv ls ns G c =
     ((\<forall>i<length ns. \<forall>j<length ns. i \<notin> G \<longrightarrow> component (ns ! i) \<noteq> NONE_COMPONENT \<longrightarrow>
         adjacent ls (id' (ns ! i)) (id' (ns ! j)) \<longrightarrow> component (ns ! j) = component (ns ! i)) \<and>
      (\<forall>i \<in> G. i < length ns \<and> component (ns ! i) = c) \<and>
      (\<forall>i<length ns. \<forall>j<length ns. component (ns ! i) \<noteq> NONE_COMPONENT \<longrightarrow>
         component (ns ! i) = component (ns ! j) \<longrightarrow> connected ls (id' (ns ! i)) (id' (ns ! j))))"

text \<open>What visits do to the vertices: a vertex keeps its fields, but for a vertex without
  a component that may get the component \<open>c\<close>.\<close>

definition relabels :: "string \<Rightarrow> GraphVertex list \<Rightarrow> GraphVertex list \<Rightarrow> bool" where
  "relabels c ns ns' =
     (length ns' = length ns \<and>
      (\<forall>i<length ns. id' (ns' ! i) = id' (ns ! i) \<and> label (ns' ! i) = label (ns ! i) \<and>
         isolate (ns' ! i) = isolate (ns ! i) \<and>
         (component (ns' ! i) = component (ns ! i) \<or>
          (component (ns ! i) = NONE_COMPONENT \<and> component (ns' ! i) = c))))"

text \<open>Between two top-level visits no visit is under way; every component in use is one of
  \<^verbatim>\<open>components\<close>, and these are the names \<open>Component 1\<close> to \<open>Component n\<close>.\<close>

definition names_ok :: "GraphVertex list \<Rightarrow> string list \<Rightarrow> bool" where
  "names_ok ns cs =
     ((\<forall>i<length ns. component (ns ! i) \<noteq> NONE_COMPONENT \<longrightarrow> component (ns ! i) \<in> set cs) \<and>
      (\<forall>c \<in> set cs. \<exists>k. 0 < k \<and> k \<le> length cs \<and> c = component_name k))"

text \<open>What the whole labeling does to the vertices: nothing but giving components to
  vertices that had none.\<close>

definition same_vertices :: "GraphVertex list \<Rightarrow> GraphVertex list \<Rightarrow> bool" where
  "same_vertices ns ns' =
     (length ns' = length ns \<and>
      (\<forall>i<length ns. id' (ns' ! i) = id' (ns ! i) \<and> label (ns' ! i) = label (ns ! i) \<and>
         isolate (ns' ! i) = isolate (ns ! i) \<and>
         (component (ns ! i) \<noteq> NONE_COMPONENT \<longrightarrow> component (ns' ! i) = component (ns ! i))))"

text \<open>The links the index holds: one per entry and outbound target, in order.\<close>

definition index_links :: "(string, string list) jsmap \<Rightarrow> GraphEdge list" where
  "index_links m =
     concat (map (\<lambda>(file, outbound). map (\<lambda>t. \<lparr>source = file, target = t, weight = 1\<rparr>) outbound) m)"

text \<open>An outbound target that is not itself a key of the file database.\<close>

definition dangling_target :: "LinkProvider \<Rightarrow> bool" where
  "dangling_target p =
     (\<exists>entry \<in> set (fileLinkDatabase p). \<exists>t \<in> set (snd entry). \<not> map_has (fileLinkDatabase p) t)"

text \<open>Vertices as the first loop of the builder creates them.\<close>

definition fresh_vertices :: "GraphVertex list \<Rightarrow> bool" where
  "fresh_vertices ns = (\<forall>v \<in> set ns. component v = NONE_COMPONENT \<and> isolate v)"

text \<open>For the scenarios, a \<open>basename\<close> for paths that do not end in a slash: the text
  after the last slash.\<close>

definition last_segment :: "string \<Rightarrow> string" where
  "last_segment p = rev (takeWhile (\<lambda>c. c \<noteq> CHR ''/'') (rev p))"

section \<open>Properties of the link index\<close>

lemma map_get_set_same: "map_get (map_set m k v) k = Some v"
  by (induction m) auto

lemma map_get_set_other: "k' \<noteq> k \<Longrightarrow> map_get (map_set m k v) k' = map_get m k'"
  by (induction m) auto

lemma map_set_twice: "map_set (map_set m k v) k v = map_set m k v"
  by (induction m) auto

lemma map_get_delete: "map_get (map_delete m k) k = None"
  by (induction m) auto

lemma map_delete_absent: "\<not> map_has m k \<Longrightarrow> map_delete m k = m"
  by (induction m) (auto split: if_splits)

lemma map_has_iff: "map_has m k \<longleftrightarrow> k \<in> fst ` set m"
  by (induction m) auto

lemma map_get_None_iff: "map_get m k = None \<longleftrightarrow> \<not> map_has m k"
  by (induction m k rule: map_has.induct) auto

lemma keys_map_set: "set (map fst (map_set m k v)) = insert k (set (map fst m))"
  by (induction m k v rule: map_set.induct) auto

lemma keys_map_delete: "set (map fst (map_delete m k)) = set (map fst m) - {k}"
  by (induction m k rule: map_delete.induct) auto

lemma wf_map_set: "wf_map m \<Longrightarrow> wf_map (map_set m k v)"
  unfolding wf_map_def
proof (induction m)
  case Nil
  then show ?case by simp
next
  case (Cons e m)
  obtain k' v' where e: "e = (k', v')" by (cases e)
  from Cons show ?case
    using keys_map_set[of m k v] by (auto simp: e simp del: set_map)
qed

lemma wf_map_delete: "wf_map m \<Longrightarrow> wf_map (map_delete m k)"
  unfolding wf_map_def
proof (induction m)
  case Nil
  then show ?case by simp
next
  case (Cons e m)
  obtain k' v' where e: "e = (k', v')" by (cases e)
  from Cons show ?case
    using keys_map_delete[of m k] by (auto simp: e simp del: set_map)
qed

lemma resolve_links_acc:
  "resolve_links findExact resolved raw = resolved @ resolved_sequence findExact raw"
  by (induction raw arbitrary: resolved) (auto simp: resolved_sequence_def split: option.splits)

lemma resolve_links_eq: "resolve_links findExact [] raw = resolved_sequence findExact raw"
  by (simp add: resolve_links_acc)

lemma fileLinkDatabase_report:
  "fileLinkDatabase (report findExact sourcePath raw sourceID p) =
     map_set (fileLinkDatabase p) sourcePath (resolved_sequence findExact raw)"
  by (simp add: report_def Let_def broadcastIpcMessage_def resolve_links_eq split: option.splits)

lemma idLinkDatabase_report:
  "idLinkDatabase (report findExact sourcePath raw sourceID p) =
     (case normalize_id sourceID of
        None \<Rightarrow> idLinkDatabase p
      | Some i \<Rightarrow> map_set (idLinkDatabase p) i (resolved_sequence findExact raw))"
  by (simp add: report_def Let_def broadcastIpcMessage_def resolve_links_eq split: option.splits)

lemma fileLinkDatabase_remove:
  "fileLinkDatabase (remove sourcePath sourceID p) = map_delete (fileLinkDatabase p) sourcePath"
  by (simp add: remove_def Let_def broadcastIpcMessage_def map_delete_absent split: option.splits)

lemma idLinkDatabase_remove:
  "idLinkDatabase (remove sourcePath sourceID p) =
     (case normalize_id sourceID of
        None \<Rightarrow> idLinkDatabase p
      | Some i \<Rightarrow> map_delete (idLinkDatabase p) i)"
  by (simp add: remove_def Let_def broadcastIpcMessage_def map_delete_absent split: option.splits)

text \<open>Both methods keep the keys of the two maps unique.\<close>

lemma report_wf:
  "wf_map (fileLinkDatabase p) \<Longrightarrow> wf_map (idLinkDatabase p) \<Longrightarrow>
   wf_map (fileLinkDatabase (report findExact sourcePath raw sourceID p)) \<and>
   wf_map (idLinkDatabase (report findExact sourcePath raw sourceID p))"
  by (simp add: fileLinkDatabase_report idLinkDatabase_report wf_map_set split: option.splits)

lemma remove_wf:
  "wf_map (fileLinkDatabase p) \<Longrightarrow> wf_map (idLinkDatabase p) \<Longrightarrow>
   wf_map (fileLinkDatabase (remove sourcePath sourceID p)) \<and>
   wf_map (idLinkDatabase (remove sourcePath sourceID p))"
  by (simp add: fileLinkDatabase_remove idLinkDatabase_remove wf_map_delete split: option.splits)

text \<open>
  Claim C6. After \<open>report sourcePath raw sourceID\<close> the entry of \<open>sourcePath\<close> in the file
  database is the resolved sequence of \<open>raw\<close> (every token mapped through the resolver,
  the failures dropped, order and duplicates kept), whatever the entry was before; and
  when \<open>sourceID\<close> is present and not empty the entry of \<open>sourceID\<close> in the ID database is
  the same sequence.
\<close>

theorem report_stores_resolved_sequence:
  "map_get (fileLinkDatabase (report findExact sourcePath raw sourceID p)) sourcePath =
     Some (resolved_sequence findExact raw) \<and>
   (\<forall>i. sourceID = Some i \<and> i \<noteq> [] \<longrightarrow>
      map_get (idLinkDatabase (report findExact sourcePath raw sourceID p)) i =
        Some (resolved_sequence findExact raw))"
  by (simp add: fileLinkDatabase_report idLinkDatabase_report map_get_set_same normalize_id_def)

theorem report_stores_resolved_sequence_witness:
  "map_get (idLinkDatabase (report (known_paths [''b.md'']) ''a.md'' [''b.md'', ''zz'', ''b.md'']
      (Some ''id1'') \<lparr>fileLinkDatabase = [(''a.md'', [''q.md''])], idLinkDatabase = [], broadcasts = []\<rparr>)) ''id1'' =
     Some [''b.md'', ''b.md''] \<and>
   map_get (fileLinkDatabase (report (known_paths [''b.md'']) ''a.md'' [''b.md'', ''zz'', ''b.md'']
      (Some ''id1'') \<lparr>fileLinkDatabase = [(''a.md'', [''q.md''])], idLinkDatabase = [], broadcasts = []\<rparr>)) ''a.md'' =
     Some [''b.md'', ''b.md'']"
proof -
  have r: "resolved_sequence (known_paths [''b.md'']) [''b.md'', ''zz'', ''b.md''] = [''b.md'', ''b.md'']"
    by (simp add: resolved_sequence_def known_paths_def)
  have i: "Some ''id1'' = Some ''id1'' \<and> ''id1'' \<noteq> []" by simp
  from report_stores_resolved_sequence[of "known_paths [''b.md'']" "''a.md''"
      "[''b.md'', ''zz'', ''b.md'']" "Some ''id1''"
      "\<lparr>fileLinkDatabase = [(''a.md'', [''q.md''])], idLinkDatabase = [], broadcasts = []\<rparr>"] i
  show ?thesis unfolding r by blast
qed

text \<open>
  Claim C7. Reporting twice in a row with the same arguments leaves both maps as the first
  report left them.
\<close>

theorem report_twice:
  "fileLinkDatabase (report findExact sourcePath raw sourceID (report findExact sourcePath raw sourceID p)) =
     fileLinkDatabase (report findExact sourcePath raw sourceID p) \<and>
   idLinkDatabase (report findExact sourcePath raw sourceID (report findExact sourcePath raw sourceID p)) =
     idLinkDatabase (report findExact sourcePath raw sourceID p)"
  by (simp add: fileLinkDatabase_report idLinkDatabase_report map_set_twice split: option.splits)

text \<open>
  Claim C8. A \<open>remove\<close> right after a \<open>report\<close> of the same path (and ID) makes
  \<open>retrieveOutbound\<close> of the path empty. A \<open>remove\<close> of a path that has no entry leaves the
  file database as it is, and a \<open>remove\<close> whose ID is missing, empty or without an entry
  leaves the ID database as it is; \<open>remove\<close> has no failing branch.
\<close>

theorem remove_after_report:
  "retrieveOutbound sourcePath (remove sourcePath sourceID (report findExact sourcePath raw sourceID p)) = [] \<and>
   (\<not> map_has (fileLinkDatabase p) sourcePath \<longrightarrow>
      fileLinkDatabase (remove sourcePath sourceID p) = fileLinkDatabase p) \<and>
   ((\<forall>i. normalize_id sourceID = Some i \<longrightarrow> \<not> map_has (idLinkDatabase p) i) \<longrightarrow>
      idLinkDatabase (remove sourcePath sourceID p) = idLinkDatabase p)"
  by (auto simp: retrieveOutbound_def fileLinkDatabase_remove idLinkDatabase_remove
      map_get_delete map_delete_absent split: option.splits)

theorem remove_after_report_witness:
  "fileLinkDatabase (remove ''x.md'' (Some ''id9'')
      \<lparr>fileLinkDatabase = [(''a.md'', [''b.md''])], idLinkDatabase = [(''id1'', [''b.md''])], broadcasts = []\<rparr>) =
     [(''a.md'', [''b.md''])] \<and>
   idLinkDatabase (remove ''x.md'' (Some ''id9'')
      \<lparr>fileLinkDatabase = [(''a.md'', [''b.md''])], idLinkDatabase = [(''id1'', [''b.md''])], broadcasts = []\<rparr>) =
     [(''id1'', [''b.md''])]"
proof -
  let ?p = "\<lparr>fileLinkDatabase = [(''a.md'', [''b.md''])], idLinkDatabase = [(''id1'', [''b.md''])], broadcasts = []\<rparr>"
  have a: "\<not> map_has (fileLinkDatabase ?p) ''x.md''" by simp
  have b: "\<forall>i. normalize_id (Some ''id9'') = Some i \<longrightarrow> \<not> map_has (idLinkDatabase ?p) i"
    by (simp add: normalize_id_def)
  from remove_after_report[of "''x.md''" "Some ''id9''" _ _ ?p] a b
  have "fileLinkDatabase (remove ''x.md'' (Some ''id9'') ?p) = fileLinkDatabase ?p \<and>
        idLinkDatabase (remove ''x.md'' (Some ''id9'') ?p) = idLinkDatabase ?p"
    by blast
  then show ?thesis by simp
qed

text \<open>
  Claim C9. Two distinct paths reported one after the other under the same non-empty ID:
  the ID entry is the resolved sequence of the later report, and the file entry of the
  earlier path is still its own resolved sequence.
\<close>

theorem same_id_later_report_wins:
  assumes "p1 \<noteq> p2" and "i \<noteq> []"
  shows "map_get (idLinkDatabase (report findExact p2 raw2 (Some i) (report findExact p1 raw1 (Some i) p))) i =
           Some (resolved_sequence findExact raw2) \<and>
         map_get (fileLinkDatabase (report findExact p2 raw2 (Some i) (report findExact p1 raw1 (Some i) p))) p1 =
           Some (resolved_sequence findExact raw1)"
  using assms
  by (simp add: fileLinkDatabase_report idLinkDatabase_report normalize_id_def
      map_get_set_same map_get_set_other)

theorem same_id_later_report_wins_witness:
  "map_get (idLinkDatabase (report (known_paths [''b.md'', ''c.md'']) ''y.md'' [''c.md''] (Some ''id1'')
      (report (known_paths [''b.md'', ''c.md'']) ''x.md'' [''b.md''] (Some ''id1'') new_LinkProvider))) ''id1'' =
     Some [''c.md''] \<and>
   map_get (fileLinkDatabase (report (known_paths [''b.md'', ''c.md'']) ''y.md'' [''c.md''] (Some ''id1'')
      (report (known_paths [''b.md'', ''c.md'']) ''x.md'' [''b.md''] (Some ''id1'') new_LinkProvider))) ''x.md'' =
     Some [''b.md'']"
proof -
  have d: "''x.md'' \<noteq> ''y.md''" and n: "''id1'' \<noteq> []" by simp_all
  have r1: "resolved_sequence (known_paths [''b.md'', ''c.md'']) [''b.md''] = [''b.md'']"
    and r2: "resolved_sequence (known_paths [''b.md'', ''c.md'']) [''c.md''] = [''c.md'']"
    by (simp_all add: resolved_sequence_def known_paths_def)
  from same_id_later_report_wins[OF d n, of "known_paths [''b.md'', ''c.md'']" "[''c.md'']" "[''b.md'']" new_LinkProvider]
  show ?thesis unfolding r1 r2 .
qed

section \<open>Properties of the graph\<close>

subsection \<open>Containers\<close>

lemma find_ref_None: "find_ref P xs = None \<longleftrightarrow> (\<forall>x \<in> set xs. \<not> P x)"
  by (induction xs) (auto split: option.splits)

lemma find_ref_Some:
  "find_ref P xs = Some i \<Longrightarrow> i < length xs \<and> P (xs ! i) \<and> (\<forall>j<i. \<not> P (xs ! j))"
proof (induction xs arbitrary: i)
  case Nil
  then show ?case by simp
next
  case (Cons x xs)
  show ?case
  proof (cases "P x")
    case True
    with Cons.prems show ?thesis by simp
  next
    case False
    with Cons.prems obtain k where k: "find_ref P xs = Some k" "i = Suc k"
      by (auto split: option.splits)
    from Cons.IH[OF k(1)] False k(2) show ?thesis
      by (auto simp: less_Suc_eq_0_disj)
  qed
qed

lemma find_ref_distinct:
  assumes "distinct (map f xs)" "i < length xs"
  shows "find_ref (\<lambda>x. f x = f (xs ! i)) xs = Some i"
proof (cases "find_ref (\<lambda>x. f x = f (xs ! i)) xs")
  case None
  with assms(2) show ?thesis by (auto simp: find_ref_None)
next
  case (Some j)
  from find_ref_Some[OF Some] have "j < length xs" "f (xs ! j) = f (xs ! i)" by auto
  with assms have "j = i"
    by (metis distinct_conv_nth length_map nth_map)
  with Some show ?thesis by simp
qed

lemma set_new_Set: "set (new_Set acc xs) = set acc \<union> set xs"
  by (induction xs arbitrary: acc) auto

subsection \<open>Component names\<close>

lemma string_of_nat_nonempty: "string_of_nat n \<noteq> []"
  by (subst string_of_nat.simps) simp

lemma digit_char_inj: "a < 10 \<Longrightarrow> b < 10 \<Longrightarrow> digit_char a = digit_char b \<Longrightarrow> a = b"
proof -
  assume a: "a < 10" and b: "b < 10" and e: "digit_char a = digit_char b"
  from e have "(of_char (char_of (48 + a) :: char) :: nat) = of_char (char_of (48 + b) :: char)"
    by (simp add: digit_char_def)
  with a b show "a = b" by simp
qed

lemma string_of_nat_inj: "string_of_nat n = string_of_nat m \<Longrightarrow> n = m"
proof (induction n arbitrary: m rule: string_of_nat.induct)
  case (1 n)
  show ?case
  proof (cases "n < 10")
    case n: True
    show ?thesis
    proof (cases "m < 10")
      case True
      with n "1.prems" show ?thesis
        by (simp add: string_of_nat.simps[of n] string_of_nat.simps[of m] digit_char_inj)
    next
      case False
      with n "1.prems" string_of_nat_nonempty[of "m div 10"] show ?thesis
        by (simp add: string_of_nat.simps[of n] string_of_nat.simps[of m])
    qed
  next
    case n: False
    show ?thesis
    proof (cases "m < 10")
      case True
      with n "1.prems" string_of_nat_nonempty[of "n div 10"] show ?thesis
        by (simp add: string_of_nat.simps[of n] string_of_nat.simps[of m])
    next
      case False
      with n "1.prems" have
        e: "string_of_nat (n div 10) = string_of_nat (m div 10)" and
        d: "digit_char (n mod 10) = digit_char (m mod 10)"
        by (simp_all add: string_of_nat.simps[of n] string_of_nat.simps[of m])
      from "1.IH"[OF n e] have "n div 10 = m div 10" .
      moreover from d have "n mod 10 = m mod 10" by (intro digit_char_inj) auto
      ultimately show ?thesis by (metis div_mult_mod_eq)
    qed
  qed
qed

lemma component_name_inj: "component_name n = component_name m \<Longrightarrow> n = m"
  by (simp add: component_name_def string_of_nat_inj)

subsection \<open>Connection is an equivalence\<close>

lemma adjacent_sym: "adjacent ls a b \<Longrightarrow> adjacent ls b a"
  by (auto simp: adjacent_def)

lemma connected_refl: "connected ls a a"
  by (simp add: connected_def)

lemma connected_step: "adjacent ls a b \<Longrightarrow> connected ls a b"
  by (auto simp: connected_def)

lemma connected_trans: "connected ls a b \<Longrightarrow> connected ls b c \<Longrightarrow> connected ls a c"
  by (auto simp: connected_def)

lemma connected_sym: "connected ls a b \<Longrightarrow> connected ls b a"
proof -
  assume "connected ls a b"
  then have "(a, b) \<in> {(x, y). adjacent ls x y}\<^sup>*" by (simp add: connected_def)
  then show "connected ls b a"
  proof (induction rule: rtrancl_induct)
    case base
    show ?case by (rule connected_refl)
  next
    case (step y z)
    then have "adjacent ls z y" by (auto intro: adjacent_sym)
    then show ?case using step.IH by (blast intro: connected_step connected_trans)
  qed
qed

subsection \<open>The targets of a visit\<close>

lemma set_opposite_ends: "set (opposite_ends ls a) = {b. adjacent ls a b}"
  by (auto simp: opposite_ends_def adjacent_def)

lemma all_targets_sound:
  assumes "links_closed ls ns" "t \<in> set (all_targets ls ns i)"
  shows "\<exists>j<length ns. t = Some j \<and> adjacent ls (id' (ns ! i)) (id' (ns ! j))"
proof -
  from assms(2) obtain b where b: "adjacent ls (id' (ns ! i)) b"
    and t: "t = find_ref (\<lambda>node. id' node = b) ns"
    by (auto simp: all_targets_def set_opposite_ends)
  from b assms(1) have "b \<in> set (map id' ns)"
    by (auto simp: adjacent_def links_closed_def)
  then have "find_ref (\<lambda>node. id' node = b) ns \<noteq> None"
    by (auto simp: find_ref_None)
  then obtain j where j: "find_ref (\<lambda>node. id' node = b) ns = Some j" by auto
  from find_ref_Some[OF j] b t j show ?thesis by auto
qed

lemma all_targets_complete:
  assumes "distinct (map id' ns)" "j < length ns" "adjacent ls (id' (ns ! i)) (id' (ns ! j))"
  shows "Some j \<in> set (all_targets ls ns i)"
proof -
  from assms(3) have "id' (ns ! j) \<in> set (opposite_ends ls (id' (ns ! i)))"
    by (simp add: set_opposite_ends)
  moreover have "find_ref (\<lambda>node. id' node = id' (ns ! j)) ns = Some j"
    by (rule find_ref_distinct[OF assms(1,2)])
  ultimately have "Some j \<in> (\<lambda>link. find_ref (\<lambda>node. id' node = link) ns) `
      set (opposite_ends ls (id' (ns ! i)))"
    by (intro image_eqI[where x = "id' (ns ! j)"]) simp_all
  then show ?thesis by (simp add: all_targets_def)
qed

subsection \<open>The invariant of the labeler\<close>

lemma relabels_refl: "relabels c ns ns"
  by (simp add: relabels_def)

lemma relabels_trans:
  "c \<noteq> NONE_COMPONENT \<Longrightarrow> relabels c ns ns' \<Longrightarrow> relabels c ns' ns'' \<Longrightarrow> relabels c ns ns''"
  unfolding relabels_def by (metis (no_types, lifting))

lemma relabels_set_component:
  "i < length ns \<Longrightarrow> component (ns ! i) = NONE_COMPONENT \<Longrightarrow> relabels c ns (set_component ns i c)"
  by (simp add: relabels_def set_component_def nth_list_update)

lemma relabels_ids: "relabels c ns ns' \<Longrightarrow> map id' ns' = map id' ns"
  by (auto simp: relabels_def intro: nth_equalityI)

lemma relabels_length: "relabels c ns ns' \<Longrightarrow> length ns' = length ns"
  by (simp add: relabels_def)

lemma relabels_id: "relabels c ns ns' \<Longrightarrow> i < length ns \<Longrightarrow> id' (ns' ! i) = id' (ns ! i)"
  by (simp add: relabels_def)

lemma relabels_keeps:
  "relabels c ns ns' \<Longrightarrow> i < length ns \<Longrightarrow> component (ns ! i) \<noteq> NONE_COMPONENT \<Longrightarrow>
   component (ns' ! i) = component (ns ! i)"
  by (auto simp: relabels_def)

lemma relabels_closed: "relabels c ns ns' \<Longrightarrow> links_closed ls ns \<Longrightarrow> links_closed ls ns'"
  by (simp add: links_closed_def relabels_ids)

text \<open>Giving the current component to a vertex without one, which thereby enters \<open>G\<close>.\<close>

lemma labeling_inv_assign:
  assumes inv: "labeling_inv ls ns G c"
    and i: "i < length ns" and none: "component (ns ! i) = NONE_COMPONENT"
    and c: "c \<noteq> NONE_COMPONENT"
    and conn: "\<forall>k<length ns. component (ns ! k) = c \<longrightarrow> connected ls (id' (ns ! k)) (id' (ns ! i))"
  shows "labeling_inv ls (set_component ns i c) (insert i G) c"
proof -
  let ?ns = "set_component ns i c"
  have len: "length ?ns = length ns" by (simp add: set_component_def)
  have idn: "\<And>k. k < length ns \<Longrightarrow> id' (?ns ! k) = id' (ns ! k)"
    using i by (auto simp: set_component_def nth_list_update)
  have cmp: "\<And>k. k < length ns \<Longrightarrow> component (?ns ! k) = (if k = i then c else component (ns ! k))"
    using i by (auto simp: set_component_def nth_list_update)
  from inv have
    i1: "\<And>a b. a < length ns \<Longrightarrow> b < length ns \<Longrightarrow> a \<notin> G \<Longrightarrow> component (ns ! a) \<noteq> NONE_COMPONENT \<Longrightarrow>
           adjacent ls (id' (ns ! a)) (id' (ns ! b)) \<Longrightarrow> component (ns ! b) = component (ns ! a)"
    and i2: "\<And>a. a \<in> G \<Longrightarrow> a < length ns \<and> component (ns ! a) = c"
    and i3: "\<And>a b. a < length ns \<Longrightarrow> b < length ns \<Longrightarrow> component (ns ! a) \<noteq> NONE_COMPONENT \<Longrightarrow>
           component (ns ! a) = component (ns ! b) \<Longrightarrow> connected ls (id' (ns ! a)) (id' (ns ! b))"
    unfolding labeling_inv_def by blast+
  have p1: "component (?ns ! b) = component (?ns ! a)"
    if "a < length ns" "b < length ns" "a \<notin> insert i G" "component (?ns ! a) \<noteq> NONE_COMPONENT"
      "adjacent ls (id' (?ns ! a)) (id' (?ns ! b))" for a b
  proof -
    from that have ai: "a \<noteq> i" and ag: "a \<notin> G" by auto
    from that ai have na: "component (ns ! a) \<noteq> NONE_COMPONENT" by (simp add: cmp)
    from that have "adjacent ls (id' (ns ! a)) (id' (ns ! b))" by (simp add: idn)
    from i1[OF that(1,2) ag na this] have e: "component (ns ! b) = component (ns ! a)" .
    with na none have "b \<noteq> i" by auto
    with e ai that show ?thesis by (simp add: cmp)
  qed
  have p2: "a < length ns \<and> component (?ns ! a) = c" if "a \<in> insert i G" for a
    using that i i2 by (auto simp: cmp)
  have p3: "connected ls (id' (?ns ! a)) (id' (?ns ! b))"
    if "a < length ns" "b < length ns" "component (?ns ! a) \<noteq> NONE_COMPONENT"
      "component (?ns ! a) = component (?ns ! b)" for a b
  proof -
    consider "a = i" "b = i" | "a = i" "b \<noteq> i" | "a \<noteq> i" "b = i" | "a \<noteq> i" "b \<noteq> i" by blast
    then have "connected ls (id' (ns ! a)) (id' (ns ! b))"
    proof cases
      case 1
      then show ?thesis by (simp add: connected_refl)
    next
      case 2
      with that have "component (ns ! b) = c" by (simp add: cmp)
      with conn that(2) have "connected ls (id' (ns ! b)) (id' (ns ! i))" by blast
      with 2 show ?thesis by (simp add: connected_sym)
    next
      case 3
      with that have "component (ns ! a) = c" by (simp add: cmp)
      with conn that(1) 3 show ?thesis by blast
    next
      case 4
      with that i3[of a b] show ?thesis by (simp add: cmp)
    qed
    with that show ?thesis by (simp add: idn)
  qed
  show ?thesis
    unfolding labeling_inv_def len using p1 p2 p3 by blast
qed

text \<open>The end of a visit: all the neighbours of the vertex have a component, so the vertex
  leaves \<open>G\<close>.\<close>

lemma labeling_inv_close:
  assumes inv: "labeling_inv ls ns (insert i G) c"
    and nb: "\<forall>j<length ns. adjacent ls (id' (ns ! i)) (id' (ns ! j)) \<longrightarrow>
               component (ns ! j) \<noteq> NONE_COMPONENT"
  shows "labeling_inv ls ns G c"
proof -
  from inv have
    i1: "\<And>a b. a < length ns \<Longrightarrow> b < length ns \<Longrightarrow> a \<notin> insert i G \<Longrightarrow>
           component (ns ! a) \<noteq> NONE_COMPONENT \<Longrightarrow>
           adjacent ls (id' (ns ! a)) (id' (ns ! b)) \<Longrightarrow> component (ns ! b) = component (ns ! a)"
    and i2: "\<And>a. a \<in> insert i G \<Longrightarrow> a < length ns \<and> component (ns ! a) = c"
    and i3: "\<forall>a<length ns. \<forall>b<length ns. component (ns ! a) \<noteq> NONE_COMPONENT \<longrightarrow>
           component (ns ! a) = component (ns ! b) \<longrightarrow> connected ls (id' (ns ! a)) (id' (ns ! b))"
    unfolding labeling_inv_def by blast+
  from i2[of i] have il: "i < length ns" and ic: "component (ns ! i) = c" by auto
  have p1: "component (ns ! b) = component (ns ! a)"
    if "a < length ns" "b < length ns" "a \<notin> G" "component (ns ! a) \<noteq> NONE_COMPONENT"
      "adjacent ls (id' (ns ! a)) (id' (ns ! b))" for a b
  proof (cases "a = i")
    case False
    with that i1[of a b] show ?thesis by auto
  next
    case True
    with that nb have bn: "component (ns ! b) \<noteq> NONE_COMPONENT" by blast
    show ?thesis
    proof (cases "b \<in> insert i G")
      case True
      with i2[of b] ic \<open>a = i\<close> show ?thesis by simp
    next
      case False
      from that True have "adjacent ls (id' (ns ! b)) (id' (ns ! i))"
        by (auto intro: adjacent_sym)
      from i1[OF that(2) il False bn this] True show ?thesis by simp
    qed
  qed
  have p2: "a < length ns \<and> component (ns ! a) = c" if "a \<in> G" for a
    using that i2[of a] by simp
  show ?thesis
    unfolding labeling_inv_def using p1 p2 i3 by blast
qed

lemma labeling_inv_connected:
  "labeling_inv ls ns G c \<Longrightarrow> a < length ns \<Longrightarrow> b < length ns \<Longrightarrow>
   component (ns ! a) \<noteq> NONE_COMPONENT \<Longrightarrow> component (ns ! a) = component (ns ! b) \<Longrightarrow>
   connected ls (id' (ns ! a)) (id' (ns ! b))"
  unfolding labeling_inv_def by blast

subsection \<open>What a visit does\<close>

lemma visit_spec:
  "st = (ns, cs) \<Longrightarrow> t = Some i \<Longrightarrow> i < length ns \<Longrightarrow> distinct (map id' ns) \<Longrightarrow>
   links_closed ls ns \<Longrightarrow>
   c = (case cmp of None \<Rightarrow> component_name (length cs + 1) | Some c' \<Rightarrow> c') \<Longrightarrow>
   c \<noteq> NONE_COMPONENT \<Longrightarrow> labeling_inv ls ns G c \<Longrightarrow>
   (\<forall>k<length ns. component (ns ! k) = c \<longrightarrow> connected ls (id' (ns ! k)) (id' (ns ! i))) \<Longrightarrow>
   \<exists>ns'. visit ls st t cmp =
           Inr (ns', if cmp = None \<and> component (ns ! i) = NONE_COMPONENT then cs @ [c] else cs) \<and>
         relabels c ns ns' \<and> labeling_inv ls ns' G c \<and> component (ns' ! i) \<noteq> NONE_COMPONENT"
  and visit_each_spec:
  "st = (ns, cs) \<Longrightarrow> cmp = Some c \<Longrightarrow> c \<noteq> NONE_COMPONENT \<Longrightarrow> distinct (map id' ns) \<Longrightarrow>
   links_closed ls ns \<Longrightarrow> labeling_inv ls ns G c \<Longrightarrow>
   (\<forall>t \<in> set ts. \<exists>j<length ns. t = Some j \<and>
      (\<exists>k<length ns. component (ns ! k) = c \<and> connected ls (id' (ns ! k)) (id' (ns ! j)))) \<Longrightarrow>
   \<exists>ns'. visit_each ls st ts cmp = Inr (ns', cs) \<and>
         relabels c ns ns' \<and> labeling_inv ls ns' G c \<and>
         (\<forall>j. Some j \<in> set ts \<longrightarrow> component (ns' ! j) \<noteq> NONE_COMPONENT)"
proof (induction ls st t cmp and ls st ts cmp arbitrary: ns cs i c G and ns cs c G
    rule: visit_visit_each.induct)
  case (1 ls ns0 cs0 cmp)
  then show ?case by simp
next
  case (2 ls ns0 cs0 i0 cmp)
  from "2.prems" have eq: "ns0 = ns" "cs0 = cs" "i0 = i" by simp_all
  note prems = "2.prems"(3-9)
  show ?case
  proof (cases "component (ns ! i) = NONE_COMPONENT")
    case False
    with prems have "visit ls (ns, cs) (Some i) cmp = Inr (ns, cs)" by simp
    with False prems show ?thesis
      unfolding eq by (auto intro: relabels_refl)
  next
    case none: True
    define cs' where "cs' = (case cmp of None \<Rightarrow> cs @ [c] | Some c' \<Rightarrow> cs)"
    define ns1 where "ns1 = set_component ns i c"
    have go: "\<not> length ns \<le> i"
      "\<not> (component (ns ! i) \<noteq> NONE_COMPONENT \<or> Some (component (ns ! i)) = cmp)"
      using prems none by (auto split: option.splits)
    have r1: "relabels c ns ns1"
      unfolding ns1_def using prems none by (intro relabels_set_component)
    have d1: "distinct (map id' ns1)" and l1: "links_closed ls ns1" and len1: "length ns1 = length ns"
      using r1 prems by (simp_all add: relabels_ids relabels_closed relabels_length)
    have inv1: "labeling_inv ls ns1 (insert i G) c"
      unfolding ns1_def using prems none by (intro labeling_inv_assign) auto
    have ci: "component (ns1 ! i) = c"
      using prems by (simp add: ns1_def set_component_def)
    have targets: "\<forall>t \<in> set (all_targets ls ns1 i). \<exists>j<length ns1. t = Some j \<and>
        (\<exists>k<length ns1. component (ns1 ! k) = c \<and> connected ls (id' (ns1 ! k)) (id' (ns1 ! j)))"
    proof
      fix t assume "t \<in> set (all_targets ls ns1 i)"
      from all_targets_sound[OF l1 this] obtain j where
        j: "j < length ns1" "t = Some j" "adjacent ls (id' (ns1 ! i)) (id' (ns1 ! j))" by blast
      from j(3) have "connected ls (id' (ns1 ! i)) (id' (ns1 ! j))" by (rule connected_step)
      with j ci prems len1 show "\<exists>j<length ns1. t = Some j \<and>
        (\<exists>k<length ns1. component (ns1 ! k) = c \<and> connected ls (id' (ns1 ! k)) (id' (ns1 ! j)))"
        by auto
    qed
    from "2.IH"[unfolded eq, OF go prems(4) cs'_def ns1_def refl refl \<open>c \<noteq> NONE_COMPONENT\<close> d1 l1 inv1 targets]
    obtain ns' where
      run: "visit_each ls (ns1, cs') (all_targets ls ns1 i) (Some c) = Inr (ns', cs')"
      and r2: "relabels c ns1 ns'" and inv2: "labeling_inv ls ns' (insert i G) c"
      and fin: "\<forall>j. Some j \<in> set (all_targets ls ns1 i) \<longrightarrow> component (ns' ! j) \<noteq> NONE_COMPONENT"
      by blast
    have len2: "length ns' = length ns" using r2 len1 by (simp add: relabels_length)
    have ci2: "component (ns' ! i) = c"
      using relabels_keeps[OF r2, of i] ci prems len1 by simp
    have nb: "\<forall>j<length ns'. adjacent ls (id' (ns' ! i)) (id' (ns' ! j)) \<longrightarrow>
        component (ns' ! j) \<noteq> NONE_COMPONENT"
    proof (intro allI impI)
      fix j assume j: "j < length ns'" and a: "adjacent ls (id' (ns' ! i)) (id' (ns' ! j))"
      from a j prems len1 len2 have "adjacent ls (id' (ns1 ! i)) (id' (ns1 ! j))"
        by (simp add: relabels_id[OF r2])
      from all_targets_complete[OF d1 _ this] j len1 len2 have "Some j \<in> set (all_targets ls ns1 i)"
        by simp
      with fin show "component (ns' ! j) \<noteq> NONE_COMPONENT" by blast
    qed
    have inv3: "labeling_inv ls ns' G c" by (rule labeling_inv_close[OF inv2 nb])
    have r3: "relabels c ns ns'" by (rule relabels_trans[OF \<open>c \<noteq> NONE_COMPONENT\<close> r1 r2])
    have "visit ls (ns, cs) (Some i) cmp = visit_each ls (ns1, cs') (all_targets ls ns1 i) (Some c)"
      unfolding ns1_def cs'_def prems(4) using go by (simp add: Let_def)
    with run have "visit ls (ns, cs) (Some i) cmp = Inr (ns', cs')" by simp
    moreover have "cs' = (if cmp = None \<and> component (ns ! i) = NONE_COMPONENT then cs @ [c] else cs)"
      using none by (simp add: cs'_def split: option.splits)
    ultimately show ?thesis
      unfolding eq using r3 inv3 ci2 \<open>c \<noteq> NONE_COMPONENT\<close> by auto
  qed
next
  case (3 ls st cmp)
  then show ?case by (auto intro: relabels_refl)
next
  case (4 ls st t ts cmp)
  note prems = "4.prems"
  from prems(7) obtain j k where j: "j < length ns" "t = Some j"
    and k: "k < length ns" "component (ns ! k) = c" "connected ls (id' (ns ! k)) (id' (ns ! j))"
    by auto
  have c_eq: "c = (case cmp of None \<Rightarrow> component_name (length cs + 1) | Some c' \<Rightarrow> c')"
    using prems by simp
  have conn: "\<forall>m<length ns. component (ns ! m) = c \<longrightarrow> connected ls (id' (ns ! m)) (id' (ns ! j))"
  proof (intro allI impI)
    fix m assume m: "m < length ns" "component (ns ! m) = c"
    with k prems(3) labeling_inv_connected[OF prems(6) m(1) k(1)]
    have "connected ls (id' (ns ! m)) (id' (ns ! k))" by simp
    with k(3) show "connected ls (id' (ns ! m)) (id' (ns ! j))" by (blast intro: connected_trans)
  qed
  from "4.IH"(1)[OF prems(1) j(2) j(1) prems(4,5) c_eq prems(3,6) conn] prems(2)
  obtain ns1 where v: "visit ls st t cmp = Inr (ns1, cs)"
    and r1: "relabels c ns ns1" and inv1: "labeling_inv ls ns1 G c"
    and cj: "component (ns1 ! j) \<noteq> NONE_COMPONENT"
    by auto
  have d1: "distinct (map id' ns1)" and l1: "links_closed ls ns1" and len1: "length ns1 = length ns"
    using r1 prems by (simp_all add: relabels_ids relabels_closed relabels_length)
  have rest: "\<forall>t \<in> set ts. \<exists>j<length ns1. t = Some j \<and>
      (\<exists>k<length ns1. component (ns1 ! k) = c \<and> connected ls (id' (ns1 ! k)) (id' (ns1 ! j)))"
  proof
    fix t' assume "t' \<in> set ts"
    with prems(7) obtain j' k' where a: "j' < length ns" "t' = Some j'" "k' < length ns"
      "component (ns ! k') = c" "connected ls (id' (ns ! k')) (id' (ns ! j'))" by auto
    from a relabels_keeps[OF r1 a(3)] prems(3) have "component (ns1 ! k') = c" by simp
    with a len1 show "\<exists>j<length ns1. t' = Some j \<and>
      (\<exists>k<length ns1. component (ns1 ! k) = c \<and> connected ls (id' (ns1 ! k)) (id' (ns1 ! j)))"
      using relabels_id[OF r1] by auto
  qed
  from "4.IH"(2)[OF v refl prems(2,3) d1 l1 inv1 rest]
  obtain ns2 where run: "visit_each ls (ns1, cs) ts cmp = Inr (ns2, cs)"
    and r2: "relabels c ns1 ns2" and inv2: "labeling_inv ls ns2 G c"
    and fin: "\<forall>j. Some j \<in> set ts \<longrightarrow> component (ns2 ! j) \<noteq> NONE_COMPONENT"
    by blast
  have r3: "relabels c ns ns2" by (rule relabels_trans[OF prems(3) r1 r2])
  have "component (ns2 ! j) \<noteq> NONE_COMPONENT"
    using relabels_keeps[OF r2, of j] cj j len1 by simp
  with fin j have "\<forall>j. Some j \<in> set (t # ts) \<longrightarrow> component (ns2 ! j) \<noteq> NONE_COMPONENT"
    by auto
  moreover have "visit_each ls st (t # ts) cmp = Inr (ns2, cs)"
    using v run by simp
  ultimately show ?case using r3 inv2 by blast
qed

subsection \<open>The loop over the vertices\<close>

lemma same_vertices_refl: "same_vertices ns ns"
  by (simp add: same_vertices_def)

lemma same_vertices_trans:
  assumes a: "same_vertices ns ns'" and b: "same_vertices ns' ns''"
  shows "same_vertices ns ns''"
proof -
  from a have la: "length ns' = length ns" by (simp add: same_vertices_def)
  from b have lb: "length ns'' = length ns'" by (simp add: same_vertices_def)
  have "id' (ns'' ! i) = id' (ns ! i) \<and> label (ns'' ! i) = label (ns ! i) \<and>
        isolate (ns'' ! i) = isolate (ns ! i) \<and>
        (component (ns ! i) \<noteq> NONE_COMPONENT \<longrightarrow> component (ns'' ! i) = component (ns ! i))"
    if i: "i < length ns" for i
  proof -
    from a i have 1: "id' (ns' ! i) = id' (ns ! i)" "label (ns' ! i) = label (ns ! i)"
      "isolate (ns' ! i) = isolate (ns ! i)"
      "component (ns ! i) \<noteq> NONE_COMPONENT \<longrightarrow> component (ns' ! i) = component (ns ! i)"
      by (simp_all add: same_vertices_def)
    from b i la have 2: "id' (ns'' ! i) = id' (ns' ! i)" "label (ns'' ! i) = label (ns' ! i)"
      "isolate (ns'' ! i) = isolate (ns' ! i)"
      "component (ns' ! i) \<noteq> NONE_COMPONENT \<longrightarrow> component (ns'' ! i) = component (ns' ! i)"
      by (simp_all add: same_vertices_def)
    from 1 2 show ?thesis by simp
  qed
  with la lb show ?thesis by (simp add: same_vertices_def)
qed

lemma relabels_same_vertices:
  assumes r: "relabels c ns ns'"
  shows "same_vertices ns ns'"
proof -
  have "id' (ns' ! i) = id' (ns ! i) \<and> label (ns' ! i) = label (ns ! i) \<and>
        isolate (ns' ! i) = isolate (ns ! i) \<and>
        (component (ns ! i) \<noteq> NONE_COMPONENT \<longrightarrow> component (ns' ! i) = component (ns ! i))"
    if i: "i < length ns" for i
    using r i relabels_keeps[OF r i] by (simp add: relabels_def)
  with relabels_length[OF r] show ?thesis by (simp add: same_vertices_def)
qed

lemma same_vertices_ids: "same_vertices ns ns' \<Longrightarrow> map id' ns' = map id' ns"
  by (auto simp: same_vertices_def intro: nth_equalityI)

lemma labeling_inv_idle: "labeling_inv ls ns {} c \<Longrightarrow> labeling_inv ls ns {} c'"
  unfolding labeling_inv_def by blast

lemma fresh_name_unused:
  assumes "names_ok ns cs" "k < length ns"
  shows "component (ns ! k) \<noteq> component_name (length cs + 1)"
proof
  assume e: "component (ns ! k) = component_name (length cs + 1)"
  then have "component (ns ! k) \<noteq> NONE_COMPONENT" by (simp add: NONE_COMPONENT_not_name)
  with assms have "component (ns ! k) \<in> set cs" by (simp add: names_ok_def)
  with assms(1) obtain m where "m \<le> length cs" "component (ns ! k) = component_name m"
    by (auto simp: names_ok_def)
  with e have "length cs + 1 \<le> length cs" using component_name_inj[of m "length cs + 1"] by simp
  then show False by simp
qed

lemma top_level_visit:
  assumes i: "i < length ns" and d: "distinct (map id' ns)" and l: "links_closed ls ns"
    and inv: "labeling_inv ls ns {} c0" and nm: "names_ok ns cs"
  shows "\<exists>ns' cs'. visit ls (ns, cs) (Some i) None = Inr (ns', cs') \<and> same_vertices ns ns' \<and>
           labeling_inv ls ns' {} c0 \<and> names_ok ns' cs' \<and> component (ns' ! i) \<noteq> NONE_COMPONENT"
proof (cases "component (ns ! i) = NONE_COMPONENT")
  case False
  with i have "visit ls (ns, cs) (Some i) None = Inr (ns, cs)" by simp
  with False inv nm show ?thesis by (auto intro: same_vertices_refl)
next
  case True
  define c where "c = component_name (length cs + 1)"
  have c: "c \<noteq> NONE_COMPONENT" by (simp add: c_def NONE_COMPONENT_not_name)
  have ceq: "c = (case None :: string option of None \<Rightarrow> component_name (length cs + 1) | Some c' \<Rightarrow> c')"
    by (simp add: c_def)
  have unused: "\<forall>k<length ns. component (ns ! k) = c \<longrightarrow> connected ls (id' (ns ! k)) (id' (ns ! i))"
    using fresh_name_unused[OF nm] by (simp add: c_def)
  from visit_spec[OF refl refl i d l ceq c labeling_inv_idle[OF inv] unused] True
  obtain ns' where v: "visit ls (ns, cs) (Some i) None = Inr (ns', cs @ [c])"
    and r: "relabels c ns ns'" and inv': "labeling_inv ls ns' {} c"
    and ci: "component (ns' ! i) \<noteq> NONE_COMPONENT"
    by auto
  have "names_ok ns' (cs @ [c])"
    unfolding names_ok_def
  proof (intro conjI allI impI ballI)
    fix k assume k: "k < length ns'" "component (ns' ! k) \<noteq> NONE_COMPONENT"
    with r have "component (ns' ! k) = component (ns ! k) \<or> component (ns' ! k) = c"
      by (auto simp: relabels_def)
    with k r nm show "component (ns' ! k) \<in> set (cs @ [c])"
      by (auto simp: names_ok_def relabels_def)
  next
    fix x assume "x \<in> set (cs @ [c])"
    then consider "x \<in> set cs" | "x = c" by auto
    then show "\<exists>k. 0 < k \<and> k \<le> length (cs @ [c]) \<and> x = component_name k"
    proof cases
      case 1
      with nm obtain k where "0 < k" "k \<le> length cs" "x = component_name k"
        by (auto simp: names_ok_def)
      then show ?thesis by (intro exI[of _ k]) simp
    next
      case 2
      then show ?thesis by (intro exI[of _ "length cs + 1"]) (simp add: c_def)
    qed
  qed
  with v r inv' ci show ?thesis
    by (auto intro: relabels_same_vertices labeling_inv_idle)
qed

lemma forEach_visit_spec:
  "distinct (map id' ns) \<Longrightarrow> links_closed ls ns \<Longrightarrow> labeling_inv ls ns {} c0 \<Longrightarrow>
   names_ok ns cs \<Longrightarrow> \<forall>i \<in> set idxs. i < length ns \<Longrightarrow>
   \<exists>ns' cs'. forEach_visit ls (ns, cs) idxs = Inr (ns', cs') \<and> same_vertices ns ns' \<and>
      labeling_inv ls ns' {} c0 \<and> names_ok ns' cs' \<and>
      (\<forall>i \<in> set idxs. component (ns' ! i) \<noteq> NONE_COMPONENT)"
proof (induction idxs arbitrary: ns cs)
  case Nil
  then show ?case by (auto intro: same_vertices_refl)
next
  case (Cons i idxs)
  from Cons.prems have i: "i < length ns" by simp
  from top_level_visit[OF i Cons.prems(1-4)] obtain ns1 cs1 where
    v: "visit ls (ns, cs) (Some i) None = Inr (ns1, cs1)" and s1: "same_vertices ns ns1"
    and inv1: "labeling_inv ls ns1 {} c0" and nm1: "names_ok ns1 cs1"
    and ci: "component (ns1 ! i) \<noteq> NONE_COMPONENT"
    by blast
  have d1: "distinct (map id' ns1)" and l1: "links_closed ls ns1"
    using s1 Cons.prems by (simp_all add: same_vertices_ids links_closed_def)
  have len1: "length ns1 = length ns" using s1 by (simp add: same_vertices_def)
  have idx1: "\<forall>i \<in> set idxs. i < length ns1" using Cons.prems len1 by simp
  from Cons.IH[OF d1 l1 inv1 nm1 idx1] obtain ns2 cs2 where
    run: "forEach_visit ls (ns1, cs1) idxs = Inr (ns2, cs2)" and s2: "same_vertices ns1 ns2"
    and inv2: "labeling_inv ls ns2 {} c0" and nm2: "names_ok ns2 cs2"
    and rest: "\<forall>i \<in> set idxs. component (ns2 ! i) \<noteq> NONE_COMPONENT"
    by blast
  have "component (ns2 ! i) \<noteq> NONE_COMPONENT"
    using s2 ci i len1 by (simp add: same_vertices_def)
  with rest have "\<forall>k \<in> set (i # idxs). component (ns2 ! k) \<noteq> NONE_COMPONENT" by simp
  moreover have "forEach_visit ls (ns, cs) (i # idxs) = Inr (ns2, cs2)" using v run by simp
  ultimately show ?case
    using same_vertices_trans[OF s1 s2] inv2 nm2 by blast
qed

subsection \<open>The components are the classes of connection\<close>

lemma closed_classes:
  assumes d: "distinct (map id' ns)" and l: "links_closed ls ns"
    and inv: "labeling_inv ls ns {} c0"
    and all: "\<forall>i<length ns. component (ns ! i) \<noteq> NONE_COMPONENT"
    and i: "i < length ns" and conn: "connected ls (id' (ns ! i)) b"
  shows "\<exists>j<length ns. id' (ns ! j) = b \<and> component (ns ! j) = component (ns ! i)"
proof -
  from conn have "(id' (ns ! i), b) \<in> {(x, y). adjacent ls x y}\<^sup>*" by (simp add: connected_def)
  then show ?thesis
  proof (induction rule: rtrancl_induct)
    case base
    with i show ?case by blast
  next
    case (step y z)
    then obtain k where k: "k < length ns" "id' (ns ! k) = y" "component (ns ! k) = component (ns ! i)"
      by blast
    from step.hyps(2) have a: "adjacent ls y z" by simp
    with l have "z \<in> set (map id' ns)" by (auto simp: adjacent_def links_closed_def)
    then obtain j where j: "j < length ns" "id' (ns ! j) = z"
      by (auto simp: in_set_conv_nth)
    from inv k j a all have "component (ns ! j) = component (ns ! k)"
      unfolding labeling_inv_def by blast
    with j k show ?case by auto
  qed
qed

lemma components_are_classes:
  assumes d: "distinct (map id' ns)" and l: "links_closed ls ns"
    and inv: "labeling_inv ls ns {} c0"
    and all: "\<forall>i<length ns. component (ns ! i) \<noteq> NONE_COMPONENT"
    and i: "i < length ns" and j: "j < length ns"
  shows "component (ns ! i) = component (ns ! j) \<longleftrightarrow> connected ls (id' (ns ! i)) (id' (ns ! j))"
proof
  assume e: "component (ns ! i) = component (ns ! j)"
  from all i have ni: "component (ns ! i) \<noteq> NONE_COMPONENT" by simp
  show "connected ls (id' (ns ! i)) (id' (ns ! j))"
    by (rule labeling_inv_connected[OF inv i j ni e])
next
  assume "connected ls (id' (ns ! i)) (id' (ns ! j))"
  from closed_classes[OF d l inv all i this] obtain k where
    k: "k < length ns" "id' (ns ! k) = id' (ns ! j)" "component (ns ! k) = component (ns ! i)"
    by blast
  from d k(1,2) j have "k = j"
    by (metis distinct_conv_nth length_map nth_map)
  with k show "component (ns ! i) = component (ns ! j)" by simp
qed

text \<open>\<^verbatim>\<open>identifyComponents\<close> on a graph whose vertices have distinct identifiers and no
  component yet, and whose links end at vertices: it does not throw, it leaves identifiers,
  labels, isolate flags and links alone, every vertex ends with one of the components
  returned, and two vertices end in the same component exactly when they are connected.\<close>

lemma identifyComponents_spec:
  assumes d: "distinct (map id' (nodes g))" and l: "links_closed (links g) (nodes g)"
    and none: "\<forall>v \<in> set (nodes g). component v = NONE_COMPONENT"
  shows "\<exists>ns cs. identifyComponents g = Inr (g\<lparr>nodes := ns\<rparr>, cs) \<and> same_vertices (nodes g) ns \<and>
     (\<forall>i<length ns. component (ns ! i) \<noteq> NONE_COMPONENT \<and> component (ns ! i) \<in> set cs) \<and>
     (\<forall>i<length ns. \<forall>j<length ns.
        component (ns ! i) = component (ns ! j) \<longleftrightarrow> connected (links g) (id' (ns ! i)) (id' (ns ! j)))"
proof -
  have inv0: "labeling_inv (links g) (nodes g) {} []"
    using none by (simp add: labeling_inv_def)
  have nm0: "names_ok (nodes g) []"
    using none by (simp add: names_ok_def)
  have idx: "\<forall>i \<in> set [0..<length (nodes g)]. i < length (nodes g)" by simp
  from forEach_visit_spec[OF d l inv0 nm0 idx] obtain ns cs where
    run: "forEach_visit (links g) (nodes g, []) [0..<length (nodes g)] = Inr (ns, cs)"
    and s: "same_vertices (nodes g) ns" and inv: "labeling_inv (links g) ns {} []"
    and nm: "names_ok ns cs"
    and all: "\<forall>i \<in> set [0..<length (nodes g)]. component (ns ! i) \<noteq> NONE_COMPONENT"
    by blast
  have len: "length ns = length (nodes g)" using s by (simp add: same_vertices_def)
  have d': "distinct (map id' ns)" and l': "links_closed (links g) ns"
    using s d l by (simp_all add: same_vertices_ids links_closed_def)
  from all len have all': "\<forall>i<length ns. component (ns ! i) \<noteq> NONE_COMPONENT" by simp
  have "identifyComponents g = Inr (g\<lparr>nodes := ns\<rparr>, cs)"
    using run by (simp add: identifyComponents_def)
  moreover have "\<forall>i<length ns. component (ns ! i) \<noteq> NONE_COMPONENT \<and> component (ns ! i) \<in> set cs"
    using all' nm by (simp add: names_ok_def)
  moreover have "\<forall>i<length ns. \<forall>j<length ns.
        component (ns ! i) = component (ns ! j) \<longleftrightarrow> connected (links g) (id' (ns ! i)) (id' (ns ! j))"
    using components_are_classes[OF d' l' inv all'] by blast
  ultimately show ?thesis using s by blast
qed

subsection \<open>The first loop of the builder\<close>

lemma find_ref_member: "find_ref (\<lambda>x. f x = a) xs = Some i \<Longrightarrow> a \<in> set (map f xs)"
proof -
  assume "find_ref (\<lambda>x. f x = a) xs = Some i"
  from find_ref_Some[OF this] have "i < length xs" "f (xs ! i) = a" by auto
  then have "f (xs ! i) \<in> f ` set xs" by (intro imageI nth_mem)
  with \<open>f (xs ! i) = a\<close> show ?thesis by simp
qed

lemma collect_entries_links:
  "links (collect_entries basename g entries) = links g @ index_links entries"
  by (induction basename g entries rule: collect_entries.induct)
     (simp_all add: index_links_def Let_def)

lemma collect_entries_components:
  "components (collect_entries basename g entries) = components g"
  by (induction basename g entries rule: collect_entries.induct) (simp_all add: Let_def)

lemma collect_entries_ids:
  "set (map id' (nodes (collect_entries basename g entries))) =
     set (map id' (nodes g)) \<union> set (map fst entries)"
proof (induction basename g entries rule: collect_entries.induct)
  case (1 basename graph)
  then show ?case by simp
next
  case (2 basename graph fl outbound entries)
  show ?case
  proof (cases "find_ref (\<lambda>vertex. id' vertex = fl) (nodes graph)")
    case None
    with 2 show ?thesis by (auto simp: Let_def)
  next
    case (Some i)
    from find_ref_member[OF Some] have "fl \<in> set (map id' (nodes graph))" .
    with 2 Some show ?thesis by (auto simp: Let_def)
  qed
qed

lemma collect_entries_distinct:
  "distinct (map id' (nodes g)) \<Longrightarrow> distinct (map id' (nodes (collect_entries basename g entries)))"
proof (induction basename g entries rule: collect_entries.induct)
  case (1 basename graph)
  then show ?case by simp
next
  case (2 basename graph fl outbound entries)
  show ?case
  proof (cases "find_ref (\<lambda>vertex. id' vertex = fl) (nodes graph)")
    case None
    then have "fl \<notin> set (map id' (nodes graph))" by (auto simp: find_ref_None)
    with 2 None show ?thesis by (simp add: Let_def)
  next
    case (Some i)
    with 2 show ?thesis by (simp add: Let_def)
  qed
qed

lemma collect_entries_fresh:
  "fresh_vertices (nodes g) \<Longrightarrow> fresh_vertices (nodes (collect_entries basename g entries))"
proof (induction basename g entries rule: collect_entries.induct)
  case (1 basename graph)
  then show ?case by simp
next
  case (2 basename graph fl outbound entries)
  have "fresh_vertices (nodes graph @
      [\<lparr>id' = fl, label = basename fl, component = NONE_COMPONENT, isolate = True\<rparr>])"
    using "2.prems" by (simp add: fresh_vertices_def)
  with 2 show ?case by (simp add: Let_def)
qed

subsection \<open>The loops that clear the isolate flags\<close>

lemma clear_one_ids: "map id' (ns[i := (ns ! i)\<lparr>isolate := False\<rparr>]) = map id' ns"
proof (cases "i < length ns")
  case True
  then show ?thesis by (intro nth_equalityI) (auto simp: nth_list_update)
next
  case False
  then have "ns[i := (ns ! i)\<lparr>isolate := False\<rparr>] = ns"
    by (intro list_update_beyond) simp
  then show ?thesis by (rule arg_cong)
qed

lemma clear_isolate_missing:
  "\<not> set es \<subseteq> set (map id' ns) \<Longrightarrow> clear_isolate ns es = Inl DidntFindNode"
proof (induction ns es rule: clear_isolate.induct)
  case (1 ns)
  then show ?case by simp
next
  case (2 ns endpoint rest)
  show ?case
  proof (cases "find_ref (\<lambda>node. id' node = endpoint) ns")
    case None
    then show ?thesis by simp
  next
    case (Some i)
    from find_ref_member[OF Some] have "endpoint \<in> set (map id' ns)" .
    with 2 Some show ?thesis by (simp add: clear_one_ids)
  qed
qed

lemma clear_isolate_found:
  "set es \<subseteq> set (map id' ns) \<Longrightarrow> distinct (map id' ns) \<Longrightarrow>
   \<exists>ns'. clear_isolate ns es = Inr ns' \<and> length ns' = length ns \<and>
     (\<forall>i<length ns. id' (ns' ! i) = id' (ns ! i) \<and> label (ns' ! i) = label (ns ! i) \<and>
        component (ns' ! i) = component (ns ! i) \<and>
        isolate (ns' ! i) = (isolate (ns ! i) \<and> id' (ns ! i) \<notin> set es))"
proof (induction ns es rule: clear_isolate.induct)
  case (1 ns)
  then show ?case by simp
next
  case (2 ns endpoint rest)
  from "2.prems" have "find_ref (\<lambda>node. id' node = endpoint) ns \<noteq> None"
    by (auto simp: find_ref_None)
  then obtain i where f: "find_ref (\<lambda>node. id' node = endpoint) ns = Some i" by auto
  from find_ref_Some[OF f] have i: "i < length ns" "id' (ns ! i) = endpoint" by auto
  let ?ns = "ns[i := (ns ! i)\<lparr>isolate := False\<rparr>]"
  have ids: "map id' ?ns = map id' ns" by (rule clear_one_ids)
  from "2.IH"[OF f] "2.prems" ids obtain ns' where
    run: "clear_isolate ?ns rest = Inr ns'" and len: "length ns' = length ns"
    and each: "\<forall>k<length ns. id' (ns' ! k) = id' (?ns ! k) \<and> label (ns' ! k) = label (?ns ! k) \<and>
        component (ns' ! k) = component (?ns ! k) \<and>
        isolate (ns' ! k) = (isolate (?ns ! k) \<and> id' (?ns ! k) \<notin> set rest)"
    by auto
  have "id' (ns' ! k) = id' (ns ! k) \<and> label (ns' ! k) = label (ns ! k) \<and>
        component (ns' ! k) = component (ns ! k) \<and>
        isolate (ns' ! k) = (isolate (ns ! k) \<and> id' (ns ! k) \<notin> set (endpoint # rest))"
    if k: "k < length ns" for k
  proof (cases "k = i")
    case True
    with each k i show ?thesis by simp
  next
    case False
    from "2.prems"(2) k i False have "id' (ns ! k) \<noteq> endpoint"
      by (metis distinct_conv_nth length_map nth_map)
    with each k False show ?thesis by simp
  qed
  with run len f show ?case by simp
qed

subsection \<open>The builder as a whole\<close>

lemma index_links_Nil: "index_links [] = []"
  by (simp add: index_links_def)

lemma index_links_Cons:
  "index_links ((fl, outbound) # m) =
     map (\<lambda>t. \<lparr>source = fl, target = t, weight = 1\<rparr>) outbound @ index_links m"
  by (simp add: index_links_def)

lemma index_links_sources: "source ` set (index_links m) \<subseteq> set (map fst m)"
proof (induction m)
  case Nil
  show ?case by (simp add: index_links_Nil)
next
  case (Cons e m)
  obtain fl outbound where e: "e = (fl, outbound)" by (cases e)
  from Cons show ?case
    unfolding e index_links_Cons by (auto simp: image_Un)
qed

lemma index_links_targets: "target ` set (index_links m) = (\<Union>entry \<in> set m. set (snd entry))"
proof (induction m)
  case Nil
  show ?case by (simp add: index_links_Nil)
next
  case (Cons e m)
  obtain fl outbound where e: "e = (fl, outbound)" by (cases e)
  have "target ` set (map (\<lambda>t. \<lparr>source = fl, target = t, weight = 1\<rparr>) outbound) = set outbound"
    by (auto simp: image_iff)
  with Cons show ?case
    unfolding e index_links_Cons by (simp add: image_Un)
qed

lemma dangling_target_iff:
  "dangling_target p \<longleftrightarrow>
     \<not> target ` set (index_links (fileLinkDatabase p)) \<subseteq> set (map fst (fileLinkDatabase p))"
  by (auto simp: dangling_target_def index_links_targets map_has_iff)

lemma buildGraph_fail:
  assumes "dangling_target p"
  shows "buildGraph basename p = Inl DidntFindNode"
proof -
  let ?db = "fileLinkDatabase p"
  define g0 where "g0 = collect_entries basename \<lparr>nodes = [], links = [], components = []\<rparr> ?db"
  have links0: "links g0 = index_links ?db" by (simp add: g0_def collect_entries_links)
  have ids0: "set (map id' (nodes g0)) = set (map fst ?db)"
    unfolding g0_def collect_entries_ids by simp
  have d0: "distinct (map id' (nodes g0))"
    unfolding g0_def by (rule collect_entries_distinct) simp
  have src: "set (new_Set [] (map source (links g0))) \<subseteq> set (map id' (nodes g0))"
    unfolding ids0 links0 set_new_Set using index_links_sources[of ?db] by simp
  from clear_isolate_found[OF src d0] obtain ns1 where
    c1: "clear_isolate (nodes g0) (new_Set [] (map source (links g0))) = Inr ns1"
    and len1: "length ns1 = length (nodes g0)"
    and each1: "\<forall>i<length (nodes g0). id' (ns1 ! i) = id' (nodes g0 ! i)"
    by blast
  have ids1: "map id' ns1 = map id' (nodes g0)"
    using len1 each1 by (intro nth_equalityI) simp_all
  have "\<not> set (new_Set [] (map target (links g0))) \<subseteq> set (map id' ns1)"
    unfolding ids1 ids0 links0 set_new_Set using assms by (simp add: dangling_target_iff)
  from clear_isolate_missing[OF this]
  have c2: "clear_isolate ns1 (new_Set [] (map target (links g0))) = Inl DidntFindNode" .
  show ?thesis
    unfolding buildGraph_def g0_def[symmetric] Let_def using c1 c2 by simp
qed

lemma buildGraph_ok:
  assumes "\<not> dangling_target p"
  shows "\<exists>ns cs. buildGraph basename p =
           Inr \<lparr>nodes = ns, links = index_links (fileLinkDatabase p), components = cs\<rparr> \<and>
         distinct (map id' ns) \<and> set (map id' ns) = set (map fst (fileLinkDatabase p)) \<and>
         (\<forall>i<length ns. component (ns ! i) \<noteq> NONE_COMPONENT \<and> component (ns ! i) \<in> set cs \<and>
            isolate (ns ! i) = (id' (ns ! i) \<notin> source ` set (index_links (fileLinkDatabase p)) \<and>
                               id' (ns ! i) \<notin> target ` set (index_links (fileLinkDatabase p)))) \<and>
         (\<forall>i<length ns. \<forall>j<length ns. component (ns ! i) = component (ns ! j) \<longleftrightarrow>
            connected (index_links (fileLinkDatabase p)) (id' (ns ! i)) (id' (ns ! j)))"
proof -
  let ?db = "fileLinkDatabase p"
  let ?ls = "index_links ?db"
  define g0 where "g0 = collect_entries basename \<lparr>nodes = [], links = [], components = []\<rparr> ?db"
  have links0: "links g0 = ?ls" by (simp add: g0_def collect_entries_links)
  have comps0: "components g0 = []" by (simp add: g0_def collect_entries_components)
  have ids0: "set (map id' (nodes g0)) = set (map fst ?db)"
    unfolding g0_def collect_entries_ids by simp
  have d0: "distinct (map id' (nodes g0))"
    unfolding g0_def by (rule collect_entries_distinct) simp
  have "fresh_vertices (nodes g0)"
    unfolding g0_def by (rule collect_entries_fresh) (simp add: fresh_vertices_def)
  then have fresh0: "\<And>i. i < length (nodes g0) \<Longrightarrow>
      component (nodes g0 ! i) = NONE_COMPONENT \<and> isolate (nodes g0 ! i)"
    by (simp add: fresh_vertices_def)
  have src: "set (new_Set [] (map source (links g0))) \<subseteq> set (map id' (nodes g0))"
    unfolding ids0 links0 set_new_Set using index_links_sources[of ?db] by simp
  from clear_isolate_found[OF src d0] obtain ns1 where
    c1: "clear_isolate (nodes g0) (new_Set [] (map source (links g0))) = Inr ns1"
    and len1: "length ns1 = length (nodes g0)"
    and each1: "\<And>i. i < length (nodes g0) \<Longrightarrow> id' (ns1 ! i) = id' (nodes g0 ! i) \<and>
        component (ns1 ! i) = component (nodes g0 ! i) \<and>
        isolate (ns1 ! i) = (isolate (nodes g0 ! i) \<and>
          id' (nodes g0 ! i) \<notin> set (new_Set [] (map source (links g0))))"
    by blast
  have ids1: "map id' ns1 = map id' (nodes g0)"
    using len1 each1 by (intro nth_equalityI) simp_all
  have tgt: "set (new_Set [] (map target (links g0))) \<subseteq> set (map id' ns1)"
    unfolding ids1 ids0 links0 set_new_Set using assms by (simp add: dangling_target_iff)
  have d1: "distinct (map id' ns1)" using d0 ids1 by simp
  from clear_isolate_found[OF tgt d1] obtain ns2 where
    c2: "clear_isolate ns1 (new_Set [] (map target (links g0))) = Inr ns2"
    and len2: "length ns2 = length ns1"
    and each2: "\<And>i. i < length ns1 \<Longrightarrow> id' (ns2 ! i) = id' (ns1 ! i) \<and>
        component (ns2 ! i) = component (ns1 ! i) \<and>
        isolate (ns2 ! i) = (isolate (ns1 ! i) \<and>
          id' (ns1 ! i) \<notin> set (new_Set [] (map target (links g0))))"
    by blast
  have ids2: "map id' ns2 = map id' (nodes g0)"
    unfolding ids1[symmetric] using len2 each2 by (intro nth_equalityI) simp_all
  have d2: "distinct (map id' ns2)" using d0 ids2 by simp
  have each: "id' (ns2 ! i) = id' (nodes g0 ! i) \<and> component (ns2 ! i) = NONE_COMPONENT \<and>
      isolate (ns2 ! i) = (id' (ns2 ! i) \<notin> source ` set ?ls \<and> id' (ns2 ! i) \<notin> target ` set ?ls)"
    if i: "i < length (nodes g0)" for i
    using each1[OF i] each2[of i] fresh0[OF i] i len1 by (simp add: set_new_Set links0)
  let ?g = "g0\<lparr>nodes := ns2\<rparr>"
  have closed: "links_closed (links ?g) (nodes ?g)"
    using src tgt by (auto simp: links_closed_def set_new_Set ids1 ids2)
  have none: "\<forall>v \<in> set (nodes ?g). component v = NONE_COMPONENT"
    using each len1 len2 by (auto simp: in_set_conv_nth)
  have d: "distinct (map id' (nodes ?g))" using d2 by simp
  from identifyComponents_spec[OF d closed none] obtain ns cs where
    run: "identifyComponents ?g = Inr (?g\<lparr>nodes := ns\<rparr>, cs)"
    and same: "same_vertices ns2 ns"
    and labelled: "\<And>i. i < length ns \<Longrightarrow>
        component (ns ! i) \<noteq> NONE_COMPONENT \<and> component (ns ! i) \<in> set cs"
    and classes: "\<forall>i<length ns. \<forall>j<length ns. component (ns ! i) = component (ns ! j) \<longleftrightarrow>
        connected ?ls (id' (ns ! i)) (id' (ns ! j))"
    by (auto simp: links0)
  have len: "length ns = length (nodes g0)" using same len1 len2 by (simp add: same_vertices_def)
  have ids: "map id' ns = map id' (nodes g0)" using same ids2 by (simp add: same_vertices_ids)
  have iso: "isolate (ns ! i) = (id' (ns ! i) \<notin> source ` set ?ls \<and> id' (ns ! i) \<notin> target ` set ?ls)"
    if i: "i < length ns" for i
  proof -
    from same i len len1 len2 have "isolate (ns ! i) = isolate (ns2 ! i)" "id' (ns ! i) = id' (ns2 ! i)"
      by (simp_all add: same_vertices_def)
    with each[of i] i len show ?thesis by simp
  qed
  have "buildGraph basename p = Inr (?g\<lparr>nodes := ns\<rparr>\<lparr>components := cs\<rparr>)"
    unfolding buildGraph_def g0_def[symmetric] Let_def using c1 c2 run by simp
  moreover have "?g\<lparr>nodes := ns\<rparr>\<lparr>components := cs\<rparr> = \<lparr>nodes = ns, links = ?ls, components = cs\<rparr>"
    using links0 by simp
  ultimately have "buildGraph basename p = Inr \<lparr>nodes = ns, links = ?ls, components = cs\<rparr>" by simp
  moreover have "distinct (map id' ns)" using d0 ids by simp
  moreover have "set (map id' ns) = set (map fst ?db)" using ids0 ids by simp
  ultimately show ?thesis using labelled iso classes by blast
qed

text \<open>What every graph returned has: the links of the index, vertices with distinct
  identifiers that are the keys of the file database, a component for every vertex,
  isolate flags that say whether a link ends at the vertex, and components that are
  the classes of connection.\<close>

lemma buildGraph_Inr:
  assumes "buildGraph basename p = Inr g"
  shows "\<not> dangling_target p"
    and "links g = index_links (fileLinkDatabase p)"
    and "distinct (map id' (nodes g))"
    and "set (map id' (nodes g)) = set (map fst (fileLinkDatabase p))"
    and "\<And>v. v \<in> set (nodes g) \<Longrightarrow>
           component v \<noteq> NONE_COMPONENT \<and> component v \<in> set (components g) \<and>
           isolate v = (id' v \<notin> source ` set (links g) \<and> id' v \<notin> target ` set (links g))"
    and "\<And>u v. u \<in> set (nodes g) \<Longrightarrow> v \<in> set (nodes g) \<Longrightarrow>
           component u = component v \<longleftrightarrow> connected (links g) (id' u) (id' v)"
proof -
  show nd: "\<not> dangling_target p"
    using assms buildGraph_fail[of p basename] by auto
  from buildGraph_ok[OF nd, of basename] assms obtain ns cs where
    g: "g = \<lparr>nodes = ns, links = index_links (fileLinkDatabase p), components = cs\<rparr>"
    and d: "distinct (map id' ns)" and ids: "set (map id' ns) = set (map fst (fileLinkDatabase p))"
    and each: "\<And>i. i < length ns \<Longrightarrow>
        component (ns ! i) \<noteq> NONE_COMPONENT \<and> component (ns ! i) \<in> set cs \<and>
        isolate (ns ! i) = (id' (ns ! i) \<notin> source ` set (index_links (fileLinkDatabase p)) \<and>
                           id' (ns ! i) \<notin> target ` set (index_links (fileLinkDatabase p)))"
    and classes: "\<And>i j. i < length ns \<Longrightarrow> j < length ns \<Longrightarrow>
        component (ns ! i) = component (ns ! j) \<longleftrightarrow>
        connected (index_links (fileLinkDatabase p)) (id' (ns ! i)) (id' (ns ! j))"
    by auto
  show "links g = index_links (fileLinkDatabase p)" by (simp add: g)
  show "distinct (map id' (nodes g))" using d by (simp add: g)
  show "set (map id' (nodes g)) = set (map fst (fileLinkDatabase p))" using ids by (simp add: g)
  show "component v \<noteq> NONE_COMPONENT \<and> component v \<in> set (components g) \<and>
        isolate v = (id' v \<notin> source ` set (links g) \<and> id' v \<notin> target ` set (links g))"
    if "v \<in> set (nodes g)" for v
  proof -
    from that obtain i where "i < length ns" "v = ns ! i" by (auto simp: g in_set_conv_nth)
    with each[of i] show ?thesis by (simp add: g)
  qed
  show "component u = component v \<longleftrightarrow> connected (links g) (id' u) (id' v)"
    if "u \<in> set (nodes g)" "v \<in> set (nodes g)" for u v
  proof -
    from that obtain i j where "i < length ns" "u = ns ! i" "j < length ns" "v = ns ! j"
      by (auto simp: g in_set_conv_nth)
    with classes[of i j] show ?thesis by (simp add: g)
  qed
qed

lemma connected_last_link:
  assumes "connected ls a b" "a \<noteq> b"
  shows "\<exists>link \<in> set ls. source link = b \<or> target link = b"
proof -
  from assms(1) have "(a, b) \<in> {(x, y). adjacent ls x y}\<^sup>*" by (simp add: connected_def)
  then show ?thesis
  proof (cases rule: rtranclE)
    case base
    with assms(2) show ?thesis by simp
  next
    case (step y)
    then have "adjacent ls y b" by simp
    then show ?thesis by (auto simp: adjacent_def)
  qed
qed

section \<open>Properties of the graph builder\<close>

text \<open>
  Claim C1, as the code has it. Whenever \<open>buildGraph\<close> returns a graph, both ends of every
  link have a vertex, and the vertices are exactly the keys of the file database: no
  vertex is added for an identifier that occurs only as a target. For an index with such
  a target \<open>buildGraph\<close> returns no graph: it throws.
\<close>

theorem buildGraph_links_end_at_vertices:
  "(buildGraph basename p = Inr g \<longrightarrow>
      (\<forall>link \<in> set (links g).
          source link \<in> set (map id' (nodes g)) \<and> target link \<in> set (map id' (nodes g))) \<and>
      set (map id' (nodes g)) = set (map fst (fileLinkDatabase p))) \<and>
   (dangling_target p \<longrightarrow> buildGraph basename p = Inl DidntFindNode)"
proof (intro conjI impI)
  assume run: "buildGraph basename p = Inr g"
  note g = buildGraph_Inr[OF run]
  have "source ` set (links g) \<subseteq> set (map fst (fileLinkDatabase p))"
    unfolding g(2) by (rule index_links_sources)
  moreover have "target ` set (links g) \<subseteq> set (map fst (fileLinkDatabase p))"
    using g(1) unfolding g(2) by (simp add: dangling_target_iff)
  ultimately show "\<forall>link \<in> set (links g).
      source link \<in> set (map id' (nodes g)) \<and> target link \<in> set (map id' (nodes g))"
    unfolding g(4) by auto
  show "set (map id' (nodes g)) = set (map fst (fileLinkDatabase p))" by (rule g(4))
next
  assume "dangling_target p"
  then show "buildGraph basename p = Inl DidntFindNode" by (rule buildGraph_fail)
qed

theorem buildGraph_links_end_at_vertices_witness:
  "set (map id' (nodes
     \<lparr>nodes =
        [\<lparr>id' = ''/n/a.md'', label = ''a.md'', component = ''Component 1'', isolate = False\<rparr>,
         \<lparr>id' = ''/n/b.md'', label = ''b.md'', component = ''Component 1'', isolate = False\<rparr>],
      links = [\<lparr>source = ''/n/a.md'', target = ''/n/b.md'', weight = 1\<rparr>],
      components = [''Component 1'']\<rparr>)) =
   set (map fst [(''/n/a.md'', [''/n/b.md'']), (''/n/b.md'', [])]) \<and>
   buildGraph last_segment
     \<lparr>fileLinkDatabase = [(''/n/b.md'', []), (''/n/c.md'', [''/n/b.md'', ''/n/q.md''])],
      idLinkDatabase = [], broadcasts = []\<rparr> = Inl DidntFindNode"
proof -
  let ?p = "\<lparr>fileLinkDatabase = [(''/n/a.md'', [''/n/b.md'']), (''/n/b.md'', [])],
             idLinkDatabase = [], broadcasts = []\<rparr>"
  let ?g = "\<lparr>nodes =
        [\<lparr>id' = ''/n/a.md'', label = ''a.md'', component = ''Component 1'', isolate = False\<rparr>,
         \<lparr>id' = ''/n/b.md'', label = ''b.md'', component = ''Component 1'', isolate = False\<rparr>],
      links = [\<lparr>source = ''/n/a.md'', target = ''/n/b.md'', weight = 1\<rparr>],
      components = [''Component 1'']\<rparr>"
  let ?q = "\<lparr>fileLinkDatabase = [(''/n/b.md'', []), (''/n/c.md'', [''/n/b.md'', ''/n/q.md''])],
             idLinkDatabase = [], broadcasts = []\<rparr>"
  have run: "buildGraph last_segment ?p = Inr ?g" by code_simp
  have dangling: "dangling_target ?q" by (simp add: dangling_target_def)
  from buildGraph_links_end_at_vertices[of last_segment ?p ?g] run
  have 1: "set (map id' (nodes ?g)) = set (map fst (fileLinkDatabase ?p))" by blast
  from buildGraph_links_end_at_vertices[of last_segment ?q] dangling
  have 2: "buildGraph last_segment ?q = Inl DidntFindNode" by blast
  from 1 2 show ?thesis by simp
qed

theorem target_never_reported_counterexample:
  "buildGraph last_segment
     \<lparr>fileLinkDatabase = [(''/n/a.md'', [''/n/b.md''])], idLinkDatabase = [], broadcasts = []\<rparr> =
   Inl DidntFindNode"
  by code_simp

text \<open>
  Claim C2. \<open>buildGraph\<close> throws its error \<open>Didnt find node\<close> exactly when some outbound
  target of the file database is not itself a key of it (so that it has no vertex), and
  it throws nothing else: the labeler never meets a missing vertex.
\<close>

theorem buildGraph_throws_iff_dangling:
  "(buildGraph basename p = Inl DidntFindNode \<longleftrightarrow> dangling_target p) \<and>
   buildGraph basename p \<noteq> Inl TypeError"
proof (cases "dangling_target p")
  case True
  then show ?thesis by (simp add: buildGraph_fail)
next
  case False
  from buildGraph_ok[OF False, of basename] False show ?thesis by auto
qed

theorem buildGraph_throws_iff_dangling_witness:
  "buildGraph last_segment
     \<lparr>fileLinkDatabase = [(''x.md'', []), (''y.md'', [''x.md'', ''z.md''])],
      idLinkDatabase = [], broadcasts = []\<rparr> = Inl DidntFindNode"
proof -
  let ?p = "\<lparr>fileLinkDatabase = [(''x.md'', []), (''y.md'', [''x.md'', ''z.md''])],
             idLinkDatabase = [], broadcasts = []\<rparr>"
  have "dangling_target ?p" by (simp add: dangling_target_def)
  with buildGraph_throws_iff_dangling[of last_segment ?p] show ?thesis by blast
qed

text \<open>
  Claim C3, as the code has it. From the empty index, with a resolver that resolves
  \<open>b.md\<close> to itself: after \<open>report a.md [b.md]\<close> and \<open>report c.md [b.md]\<close> the builder
  throws, since \<open>b.md\<close> has no vertex. Once \<open>b.md\<close> has been reported too, with no links,
  the builder returns the graph with the vertices \<open>a.md\<close>, \<open>c.md\<close>, \<open>b.md\<close>, all three in
  \<open>Component 1\<close>.
\<close>

theorem scenario_D:
  assumes "findExact ''b.md'' = Some ''b.md''"
  shows "buildGraph basename
           (report findExact ''c.md'' [''b.md''] id2
             (report findExact ''a.md'' [''b.md''] id1 new_LinkProvider)) = Inl DidntFindNode \<and>
         buildGraph basename
           (report findExact ''b.md'' [] id3
             (report findExact ''c.md'' [''b.md''] id2
               (report findExact ''a.md'' [''b.md''] id1 new_LinkProvider))) =
         Inr \<lparr>nodes =
               [\<lparr>id' = ''a.md'', label = basename ''a.md'', component = ''Component 1'', isolate = False\<rparr>,
                \<lparr>id' = ''c.md'', label = basename ''c.md'', component = ''Component 1'', isolate = False\<rparr>,
                \<lparr>id' = ''b.md'', label = basename ''b.md'', component = ''Component 1'', isolate = False\<rparr>],
              links =
               [\<lparr>source = ''a.md'', target = ''b.md'', weight = 1\<rparr>,
                \<lparr>source = ''c.md'', target = ''b.md'', weight = 1\<rparr>],
              components = [''Component 1'']\<rparr>"
proof -
  have r: "resolved_sequence findExact [''b.md''] = [''b.md'']"
    "resolved_sequence findExact [] = []"
    using assms by (simp_all add: resolved_sequence_def)
  let ?p2 = "report findExact ''c.md'' [''b.md''] id2
               (report findExact ''a.md'' [''b.md''] id1 new_LinkProvider)"
  have db2: "fileLinkDatabase ?p2 = [(''a.md'', [''b.md'']), (''c.md'', [''b.md''])]"
    by (simp add: fileLinkDatabase_report r new_LinkProvider_def)
  have db3: "fileLinkDatabase (report findExact ''b.md'' [] id3 ?p2) =
      [(''a.md'', [''b.md'']), (''c.md'', [''b.md'']), (''b.md'', [])]"
    by (simp add: fileLinkDatabase_report r new_LinkProvider_def)
  have 1: "buildGraph basename ?p2 = Inl DidntFindNode"
    unfolding buildGraph_def db2 by code_simp
  have 2: "buildGraph basename (report findExact ''b.md'' [] id3 ?p2) =
         Inr \<lparr>nodes =
               [\<lparr>id' = ''a.md'', label = basename ''a.md'', component = ''Component 1'', isolate = False\<rparr>,
                \<lparr>id' = ''c.md'', label = basename ''c.md'', component = ''Component 1'', isolate = False\<rparr>,
                \<lparr>id' = ''b.md'', label = basename ''b.md'', component = ''Component 1'', isolate = False\<rparr>],
              links =
               [\<lparr>source = ''a.md'', target = ''b.md'', weight = 1\<rparr>,
                \<lparr>source = ''c.md'', target = ''b.md'', weight = 1\<rparr>],
              components = [''Component 1'']\<rparr>"
    unfolding buildGraph_def db3 by code_simp
  from 1 2 show ?thesis by simp
qed

theorem scenario_D_witness:
  "buildGraph last_segment
     (report (known_paths [''b.md'']) ''c.md'' [''b.md''] None
       (report (known_paths [''b.md'']) ''a.md'' [''b.md''] (Some ''id-a'') new_LinkProvider)) =
     Inl DidntFindNode \<and>
   buildGraph last_segment
     (report (known_paths [''b.md'']) ''b.md'' [] None
       (report (known_paths [''b.md'']) ''c.md'' [''b.md''] None
         (report (known_paths [''b.md'']) ''a.md'' [''b.md''] (Some ''id-a'') new_LinkProvider))) =
     Inr \<lparr>nodes =
           [\<lparr>id' = ''a.md'', label = ''a.md'', component = ''Component 1'', isolate = False\<rparr>,
            \<lparr>id' = ''c.md'', label = ''c.md'', component = ''Component 1'', isolate = False\<rparr>,
            \<lparr>id' = ''b.md'', label = ''b.md'', component = ''Component 1'', isolate = False\<rparr>],
          links =
           [\<lparr>source = ''a.md'', target = ''b.md'', weight = 1\<rparr>,
            \<lparr>source = ''c.md'', target = ''b.md'', weight = 1\<rparr>],
          components = [''Component 1'']\<rparr>"
proof -
  have k: "known_paths [''b.md''] ''b.md'' = Some ''b.md''" by (simp add: known_paths_def)
  have l: "last_segment ''a.md'' = ''a.md''" "last_segment ''b.md'' = ''b.md''"
    "last_segment ''c.md'' = ''c.md''"
    by (simp_all add: last_segment_def)
  from scenario_D[of "known_paths [''b.md'']" last_segment None "Some ''id-a''" None, OF k]
  show ?thesis unfolding l .
qed

theorem scenario_D_counterexample:
  "buildGraph last_segment
     (report (known_paths [''b.md'']) ''c.md'' [''b.md''] None
       (report (known_paths [''b.md'']) ''a.md'' [''b.md''] None new_LinkProvider)) =
   Inl DidntFindNode"
  by code_simp

text \<open>
  Claim C4. In every graph \<open>buildGraph\<close> returns, every vertex carries a component that is
  not the sentinel \<open>Files\<close> and is one of the components listed, and two vertices carry the
  same component if and only if a path of links, taken in either direction, connects them.
\<close>

theorem components_partition:
  assumes "buildGraph basename p = Inr g"
  shows "(\<forall>v \<in> set (nodes g). component v \<noteq> NONE_COMPONENT \<and> component v \<in> set (components g)) \<and>
         (\<forall>u \<in> set (nodes g). \<forall>v \<in> set (nodes g).
            component u = component v \<longleftrightarrow> connected (links g) (id' u) (id' v))"
  using buildGraph_Inr(5,6)[OF assms] by blast

theorem components_partition_witness:
  "connected
     [\<lparr>source = ''a.md'', target = ''b.md'', weight = 1\<rparr>,
      \<lparr>source = ''c.md'', target = ''b.md'', weight = 1\<rparr>,
      \<lparr>source = ''d.md'', target = ''d.md'', weight = 1\<rparr>] ''a.md'' ''c.md'' \<and>
   \<not> connected
     [\<lparr>source = ''a.md'', target = ''b.md'', weight = 1\<rparr>,
      \<lparr>source = ''c.md'', target = ''b.md'', weight = 1\<rparr>,
      \<lparr>source = ''d.md'', target = ''d.md'', weight = 1\<rparr>] ''a.md'' ''d.md''"
proof -
  let ?p = "\<lparr>fileLinkDatabase =
      [(''a.md'', [''b.md'']), (''c.md'', [''b.md'']), (''b.md'', []), (''d.md'', [''d.md'']), (''e.md'', [])],
      idLinkDatabase = [], broadcasts = []\<rparr>"
  let ?a = "\<lparr>id' = ''a.md'', label = ''a.md'', component = ''Component 1'', isolate = False\<rparr>"
  let ?c = "\<lparr>id' = ''c.md'', label = ''c.md'', component = ''Component 1'', isolate = False\<rparr>"
  let ?b = "\<lparr>id' = ''b.md'', label = ''b.md'', component = ''Component 1'', isolate = False\<rparr>"
  let ?d = "\<lparr>id' = ''d.md'', label = ''d.md'', component = ''Component 2'', isolate = False\<rparr>"
  let ?e = "\<lparr>id' = ''e.md'', label = ''e.md'', component = ''Component 3'', isolate = True\<rparr>"
  let ?ls = "[\<lparr>source = ''a.md'', target = ''b.md'', weight = 1\<rparr>,
      \<lparr>source = ''c.md'', target = ''b.md'', weight = 1\<rparr>,
      \<lparr>source = ''d.md'', target = ''d.md'', weight = 1\<rparr>]"
  let ?g = "\<lparr>nodes = [?a, ?c, ?b, ?d, ?e], links = ?ls,
             components = [''Component 1'', ''Component 2'', ''Component 3'']\<rparr>"
  have run: "buildGraph last_segment ?p = Inr ?g" by code_simp
  from components_partition[OF run]
  have cls: "\<And>u v. u \<in> set (nodes ?g) \<Longrightarrow> v \<in> set (nodes ?g) \<Longrightarrow>
      component u = component v \<longleftrightarrow> connected (links ?g) (id' u) (id' v)"
    by blast
  from cls[of ?a ?c] cls[of ?a ?d] show ?thesis by simp
qed

text \<open>
  Claim C5. In every graph \<open>buildGraph\<close> returns, the isolate flag of a vertex is false if
  and only if its identifier is the source or the target of some link; a vertex at which
  no link ends keeps the flag and is the only vertex of its component.
\<close>

theorem isolate_iff_no_link:
  assumes "buildGraph basename p = Inr g"
  shows "\<forall>v \<in> set (nodes g).
           (\<not> isolate v \<longleftrightarrow> (\<exists>link \<in> set (links g). source link = id' v \<or> target link = id' v)) \<and>
           ((\<forall>link \<in> set (links g). source link \<noteq> id' v \<and> target link \<noteq> id' v) \<longrightarrow>
              isolate v \<and> (\<forall>u \<in> set (nodes g). component u = component v \<longrightarrow> u = v))"
proof
  fix v assume v: "v \<in> set (nodes g)"
  note g = buildGraph_Inr[OF assms]
  from g(5)[OF v] have iso:
    "isolate v = (id' v \<notin> source ` set (links g) \<and> id' v \<notin> target ` set (links g))"
    by simp
  have a: "\<not> isolate v \<longleftrightarrow> (\<exists>link \<in> set (links g). source link = id' v \<or> target link = id' v)"
    unfolding iso by (simp add: image_iff) metis
  have b: "isolate v \<and> (\<forall>u \<in> set (nodes g). component u = component v \<longrightarrow> u = v)"
    if none: "\<forall>link \<in> set (links g). source link \<noteq> id' v \<and> target link \<noteq> id' v"
  proof
    from a none show "isolate v" by blast
    show "\<forall>u \<in> set (nodes g). component u = component v \<longrightarrow> u = v"
    proof (intro ballI impI)
      fix u assume u: "u \<in> set (nodes g)" and e: "component u = component v"
      from g(6)[OF u v] e have "connected (links g) (id' u) (id' v)" by simp
      with connected_last_link[of "links g" "id' u" "id' v"] none have "id' u = id' v" by blast
      moreover from g(3) have "inj_on id' (set (nodes g))" by (simp add: distinct_map)
      ultimately show "u = v" using u v by (auto dest: inj_onD)
    qed
  qed
  from a b show "(\<not> isolate v \<longleftrightarrow> (\<exists>link \<in> set (links g). source link = id' v \<or> target link = id' v)) \<and>
           ((\<forall>link \<in> set (links g). source link \<noteq> id' v \<and> target link \<noteq> id' v) \<longrightarrow>
              isolate v \<and> (\<forall>u \<in> set (nodes g). component u = component v \<longrightarrow> u = v))"
    by blast
qed

theorem isolate_iff_no_link_witness:
  "isolate \<lparr>id' = ''/n/e.md'', label = ''e.md'', component = ''Component 2'', isolate = True\<rparr> \<and>
   \<not> isolate \<lparr>id' = ''/n/d.md'', label = ''d.md'', component = ''Component 1'', isolate = False\<rparr> \<and>
   component \<lparr>id' = ''/n/d.md'', label = ''d.md'', component = ''Component 1'', isolate = False\<rparr> \<noteq>
   component \<lparr>id' = ''/n/e.md'', label = ''e.md'', component = ''Component 2'', isolate = True\<rparr>"
proof -
  let ?p = "\<lparr>fileLinkDatabase = [(''/n/d.md'', [''/n/d.md'']), (''/n/e.md'', [])],
      idLinkDatabase = [], broadcasts = []\<rparr>"
  let ?d = "\<lparr>id' = ''/n/d.md'', label = ''d.md'', component = ''Component 1'', isolate = False\<rparr>"
  let ?e = "\<lparr>id' = ''/n/e.md'', label = ''e.md'', component = ''Component 2'', isolate = True\<rparr>"
  let ?g = "\<lparr>nodes = [?d, ?e], links = [\<lparr>source = ''/n/d.md'', target = ''/n/d.md'', weight = 1\<rparr>],
             components = [''Component 1'', ''Component 2'']\<rparr>"
  have run: "buildGraph last_segment ?p = Inr ?g" by code_simp
  have e: "?e \<in> set (nodes ?g)" and d: "?d \<in> set (nodes ?g)" by simp_all
  have none: "\<forall>link \<in> set (links ?g). source link \<noteq> id' ?e \<and> target link \<noteq> id' ?e" by simp
  from isolate_iff_no_link[OF run] e none
  have 1: "isolate ?e \<and> (\<forall>u \<in> set (nodes ?g). component u = component ?e \<longrightarrow> u = ?e)" by blast
  with d have 2: "component ?d = component ?e \<longrightarrow> ?d = ?e" by blast
  have 3: "?d \<noteq> ?e" by simp
  from isolate_iff_no_link[OF run] d have 4: "\<not> isolate ?d" by simp
  from 1 2 3 4 show ?thesis by blast
qed

section \<open>The provider on a store\<close>

text \<open>
  Whether a method modifies the index is a question about objects: the two maps hold
  references to arrays, \<^verbatim>\<open>report\<close> puts one array into both maps, \<^verbatim>\<open>retrieveOutbound\<close>
  hands out the array it finds, and \<^verbatim>\<open>buildGraph\<close> writes into vertices and arrays. So here
  the class is embedded once more, over an explicit store: every array, map, vertex and
  graph object is a cell with an address, a literal allocates a new cell at the end of the
  store, and a write replaces the cell at an address. Strings are values. Link objects
  and the two \<^verbatim>\<open>Set\<close>s of \<^verbatim>\<open>buildGraph\<close> are never written after their creation and stay
  values as well.
\<close>

type_synonym addr = nat

datatype obj =
    StringArray "string list"
  | StringMap "(string, addr) jsmap"
  | VertexObj GraphVertex
  | VertexArray "addr list"
  | LinkArray "GraphEdge list"
  | GraphObj addr addr addr

type_synonym store = "obj list"

text \<open>The provider object: its two \<^verbatim>\<open>readonly\<close> fields refer to the maps.\<close>

record LinkProviderObj =
  fileLinkDatabase_ref :: addr
  idLinkDatabase_ref :: addr

text \<open>A call returns a value, or throws, and leaves a store; \<open>Stuck\<close> is a read or write
  through a reference that does not point to an object of the expected kind, which the
  types of the source exclude.\<close>

datatype 'a outcome = Returned 'a store | Threw error store | Stuck

definition cell :: "store \<Rightarrow> addr \<Rightarrow> obj option" where
  "cell h a = (if a < length h then Some (h ! a) else None)"

definition strings_at :: "store \<Rightarrow> addr \<Rightarrow> string list option" where
  "strings_at h a = (case cell h a of Some (StringArray xs) \<Rightarrow> Some xs | _ \<Rightarrow> None)"

definition map_at :: "store \<Rightarrow> addr \<Rightarrow> (string, addr) jsmap option" where
  "map_at h a = (case cell h a of Some (StringMap m) \<Rightarrow> Some m | _ \<Rightarrow> None)"

definition vertex_at :: "store \<Rightarrow> addr \<Rightarrow> GraphVertex option" where
  "vertex_at h a = (case cell h a of Some (VertexObj v) \<Rightarrow> Some v | _ \<Rightarrow> None)"

definition vertices_at :: "store \<Rightarrow> addr \<Rightarrow> addr list option" where
  "vertices_at h a = (case cell h a of Some (VertexArray vs) \<Rightarrow> Some vs | _ \<Rightarrow> None)"

definition links_at :: "store \<Rightarrow> addr \<Rightarrow> GraphEdge list option" where
  "links_at h a = (case cell h a of Some (LinkArray ls) \<Rightarrow> Some ls | _ \<Rightarrow> None)"

text \<open>\<^verbatim>\<open>array.push(x)\<close> on an array of strings.\<close>

definition push_string :: "addr \<Rightarrow> string \<Rightarrow> store \<Rightarrow> store option" where
  "push_string a x h =
     (case strings_at h a of None \<Rightarrow> None | Some xs \<Rightarrow> Some (h[a := StringArray (xs @ [x])]))"

subsection \<open>The index on the store\<close>

text \<open>The constructor allocates the two maps.\<close>

definition new_LinkProvider_h :: "store \<Rightarrow> LinkProviderObj \<times> store" where
  "new_LinkProvider_h h =
     (\<lparr>fileLinkDatabase_ref = length h, idLinkDatabase_ref = length h + 1\<rparr>,
      h @ [StringMap [], StringMap []])"

fun resolve_links_h :: "(string \<Rightarrow> string option) \<Rightarrow> addr \<Rightarrow> string list \<Rightarrow> store \<Rightarrow> store option" where
  "resolve_links_h findExact resolved [] h = Some h"
| "resolve_links_h findExact resolved (link # outboundLinks) h =
     (case findExact link of
        None \<Rightarrow> resolve_links_h findExact resolved outboundLinks h
      | Some found \<Rightarrow>
          (case push_string resolved found h of
             None \<Rightarrow> None
           | Some h' \<Rightarrow> resolve_links_h findExact resolved outboundLinks h'))"

text \<open>\<^verbatim>\<open>map.set(key, array)\<close> and \<^verbatim>\<open>map.delete(key)\<close> on a map object.\<close>

definition map_set_h :: "addr \<Rightarrow> string \<Rightarrow> addr \<Rightarrow> store \<Rightarrow> store option" where
  "map_set_h ma k a h =
     (case map_at h ma of None \<Rightarrow> None | Some m \<Rightarrow> Some (h[ma := StringMap (map_set m k a)]))"

definition map_delete_h :: "addr \<Rightarrow> string \<Rightarrow> store \<Rightarrow> store option" where
  "map_delete_h ma k h =
     (case map_at h ma of
        None \<Rightarrow> None
      | Some m \<Rightarrow> Some (if map_has m k then h[ma := StringMap (map_delete m k)] else h))"

text \<open>\<^verbatim>\<open>report\<close>: the one array \<^verbatim>\<open>resolved\<close> goes into the file map and, with an ID, into
  the ID map as well. (The broadcast is not an effect on the store.)\<close>

definition report_h ::
  "(string \<Rightarrow> string option) \<Rightarrow> LinkProviderObj \<Rightarrow> string \<Rightarrow> string list \<Rightarrow> string option \<Rightarrow>
   store \<Rightarrow> unit outcome"
where
  "report_h findExact this sourcePath outboundLinks sourceID h =
     (let sourceID' = normalize_id sourceID;
          resolved = length h
      in case resolve_links_h findExact resolved outboundLinks (h @ [StringArray []]) of
           None \<Rightarrow> Stuck
         | Some h1 \<Rightarrow>
             (case map_set_h (fileLinkDatabase_ref this) sourcePath resolved h1 of
                None \<Rightarrow> Stuck
              | Some h2 \<Rightarrow>
                  (case sourceID' of
                     None \<Rightarrow> Returned () h2
                   | Some i \<Rightarrow>
                       (case map_set_h (idLinkDatabase_ref this) i resolved h2 of
                          None \<Rightarrow> Stuck
                        | Some h3 \<Rightarrow> Returned () h3))))"

definition remove_h :: "LinkProviderObj \<Rightarrow> string \<Rightarrow> string option \<Rightarrow> store \<Rightarrow> unit outcome" where
  "remove_h this sourcePath sourceID h =
     (let sourceID' = normalize_id sourceID
      in case map_delete_h (fileLinkDatabase_ref this) sourcePath h of
           None \<Rightarrow> Stuck
         | Some h1 \<Rightarrow>
             (case sourceID' of
                None \<Rightarrow> Returned () h1
              | Some i \<Rightarrow>
                  (case map_delete_h (idLinkDatabase_ref this) i h1 of
                     None \<Rightarrow> Stuck
                   | Some h2 \<Rightarrow> Returned () h2)))"

text \<open>\<^verbatim>\<open>retrieveInbound\<close>: a new array \<^verbatim>\<open>sourceFiles\<close>, and a push for every entry whose
  array includes the path.\<close>

fun inbound_scan_h :: "string \<Rightarrow> addr \<Rightarrow> (string, addr) jsmap \<Rightarrow> store \<Rightarrow> store option" where
  "inbound_scan_h sourceFilePath sourceFiles [] h = Some h"
| "inbound_scan_h sourceFilePath sourceFiles ((fl, outbound) # entries) h =
     (case strings_at h outbound of
        None \<Rightarrow> None
      | Some outboundLinks \<Rightarrow>
          if sourceFilePath \<in> set outboundLinks
          then (case push_string sourceFiles fl h of
                  None \<Rightarrow> None
                | Some h' \<Rightarrow> inbound_scan_h sourceFilePath sourceFiles entries h')
          else inbound_scan_h sourceFilePath sourceFiles entries h)"

definition retrieveInbound_h :: "LinkProviderObj \<Rightarrow> string \<Rightarrow> store \<Rightarrow> addr outcome" where
  "retrieveInbound_h this sourceFilePath h =
     (case map_at h (fileLinkDatabase_ref this) of
        None \<Rightarrow> Stuck
      | Some entries \<Rightarrow>
          (let sourceFiles = length h
           in case inbound_scan_h sourceFilePath sourceFiles entries (h @ [StringArray []]) of
                None \<Rightarrow> Stuck
              | Some h' \<Rightarrow> Returned sourceFiles h'))"

text \<open>\<^verbatim>\<open>retrieveOutbound\<close> returns the array the map holds, not a copy; only for an unknown
  path it allocates the empty array of \<^verbatim>\<open>?? []\<close>.\<close>

definition retrieveOutbound_h :: "LinkProviderObj \<Rightarrow> string \<Rightarrow> store \<Rightarrow> addr outcome" where
  "retrieveOutbound_h this sourceFilePath h =
     (case map_at h (fileLinkDatabase_ref this) of
        None \<Rightarrow> Stuck
      | Some entries \<Rightarrow>
          (case map_get entries sourceFilePath of
             Some outbound \<Rightarrow> Returned outbound h
           | None \<Rightarrow> Returned (length h) (h @ [StringArray []])))"

subsection \<open>The graph on the store\<close>

text \<open>\<^verbatim>\<open>graph.nodes.find(node => node.id === x)\<close>: the reference of the first vertex with
  the identifier, \<open>Some None\<close> for \<^verbatim>\<open>undefined\<close>.\<close>

fun find_vertex :: "store \<Rightarrow> string \<Rightarrow> addr list \<Rightarrow> addr option option" where
  "find_vertex h x [] = Some None"
| "find_vertex h x (v # vs) =
     (case vertex_at h v of
        None \<Rightarrow> None
      | Some node \<Rightarrow> if id' node = x then Some (Some v) else find_vertex h x vs)"

text \<open>The first loop of \<^verbatim>\<open>buildGraph\<close>; \<open>nodesRef\<close> and \<open>linksRef\<close> refer to the two arrays of the graph.\<close>

fun collect_entries_h ::
  "(string \<Rightarrow> string) \<Rightarrow> addr \<Rightarrow> addr \<Rightarrow> (string, addr) jsmap \<Rightarrow> store \<Rightarrow> store option"
where
  "collect_entries_h basename nodesRef linksRef [] h = Some h"
| "collect_entries_h basename nodesRef linksRef ((fl, outbound) # entries) h =
     (case vertices_at h nodesRef of
        None \<Rightarrow> None
      | Some vs \<Rightarrow>
          (case find_vertex h fl vs of
             None \<Rightarrow> None
           | Some foundVertex \<Rightarrow>
               (let h1 = (if foundVertex = None
                          then (h @ [VertexObj \<lparr>id' = fl, label = basename fl,
                                      component = NONE_COMPONENT, isolate = True\<rparr>])
                                 [nodesRef := VertexArray (vs @ [length h])]
                          else h)
                in case strings_at h1 outbound of
                     None \<Rightarrow> None
                   | Some targets \<Rightarrow>
                       (case links_at h1 linksRef of
                          None \<Rightarrow> None
                        | Some ls \<Rightarrow>
                            collect_entries_h basename nodesRef linksRef entries
                              (h1[linksRef := LinkArray (ls @
                                 map (\<lambda>t. \<lparr>source = fl, target = t, weight = 1\<rparr>) targets)])))))"

fun clear_isolate_h :: "addr \<Rightarrow> string list \<Rightarrow> store \<Rightarrow> unit outcome" where
  "clear_isolate_h nodesRef [] h = Returned () h"
| "clear_isolate_h nodesRef (endpoint # rest) h =
     (case vertices_at h nodesRef of
        None \<Rightarrow> Stuck
      | Some vs \<Rightarrow>
          (case find_vertex h endpoint vs of
             None \<Rightarrow> Stuck
           | Some None \<Rightarrow> Threw DidntFindNode h
           | Some (Some v) \<Rightarrow>
               (case vertex_at h v of
                  None \<Rightarrow> Stuck
                | Some node \<Rightarrow>
                    clear_isolate_h nodesRef rest (h[v := VertexObj (node\<lparr>isolate := False\<rparr>)]))))"

text \<open>\<^verbatim>\<open>allTargets\<close> of a visit: the references \<^verbatim>\<open>find\<close> returns for the opposite ends.\<close>

definition all_targets_h :: "addr \<Rightarrow> addr \<Rightarrow> store \<Rightarrow> string \<Rightarrow> addr option list option" where
  "all_targets_h nodesRef linksRef h sid =
     (case links_at h linksRef of
        None \<Rightarrow> None
      | Some ls \<Rightarrow>
          (case vertices_at h nodesRef of
             None \<Rightarrow> None
           | Some vs \<Rightarrow> those (map (\<lambda>link. find_vertex h link vs) (opposite_ends ls sid))))"

text \<open>The component a visit assigns; a top-level visit pushes the new name onto
  \<^verbatim>\<open>components\<close>.\<close>

definition assign_component :: "addr \<Rightarrow> string option \<Rightarrow> store \<Rightarrow> (string \<times> store) option" where
  "assign_component componentsRef cmp h =
     (case cmp of
        Some c \<Rightarrow> Some (c, h)
      | None \<Rightarrow>
          (case strings_at h componentsRef of
             None \<Rightarrow> None
           | Some cs \<Rightarrow>
               (let c = component_name (length cs + 1)
                in Some (c, h[componentsRef := StringArray (cs @ [c])]))))"

definition unassigned_h :: "store \<Rightarrow> nat" where
  "unassigned_h h =
     length (filter (\<lambda>x. case x of VertexObj v \<Rightarrow> component v = NONE_COMPONENT | _ \<Rightarrow> False) h)"

function visit_h ::
    "addr \<Rightarrow> addr \<Rightarrow> addr \<Rightarrow> store \<Rightarrow> addr option \<Rightarrow> string option \<Rightarrow> unit outcome"
  and visit_each_h ::
    "addr \<Rightarrow> addr \<Rightarrow> addr \<Rightarrow> store \<Rightarrow> addr option list \<Rightarrow> string option \<Rightarrow> unit outcome"
where
  "visit_h nodesRef linksRef componentsRef h None cmp = Threw TypeError h"
| "visit_h nodesRef linksRef componentsRef h (Some s) cmp =
     (case vertex_at h s of
        None \<Rightarrow> Stuck
      | Some src \<Rightarrow>
          if component src \<noteq> NONE_COMPONENT \<or> Some (component src) = cmp
          then Returned () h
          else
            (case assign_component componentsRef cmp h of
               None \<Rightarrow> Stuck
             | Some (c, h1) \<Rightarrow>
                 (case all_targets_h nodesRef linksRef (h1[s := VertexObj (src\<lparr>component := c\<rparr>)]) (id' src) of
                    None \<Rightarrow> Stuck
                  | Some allTargets \<Rightarrow>
                      visit_each_h nodesRef linksRef componentsRef
                        (h1[s := VertexObj (src\<lparr>component := c\<rparr>)]) allTargets (Some c))))"
| "visit_each_h nodesRef linksRef componentsRef h [] cmp = Returned () h"
| "visit_each_h nodesRef linksRef componentsRef h (t # ts) cmp =
     (case visit_h nodesRef linksRef componentsRef h t cmp of
        Returned u h' \<Rightarrow> visit_each_h nodesRef linksRef componentsRef h' ts cmp
      | Threw e h' \<Rightarrow> Threw e h'
      | Stuck \<Rightarrow> Stuck)"
  by pat_completeness auto

text \<open>Termination, as for the labeler on values.\<close>

lemma cell_update: "cell (h[a := x]) b = (if b = a \<and> a < length h then Some x else cell h b)"
  by (auto simp: cell_def)

lemma cell_append: "cell (h @ xs) b =
    (if b < length h then cell h b else if b < length h + length xs then Some (xs ! (b - length h)) else None)"
  by (auto simp: cell_def nth_append)

lemma count_update_less:
  "a < length h \<Longrightarrow> P (h ! a) \<Longrightarrow> \<not> P x \<Longrightarrow>
   length (filter P (h[a := x])) < length (filter P h)"
proof (induction h arbitrary: a)
  case Nil
  then show ?case by simp
next
  case (Cons y h)
  show ?case
  proof (cases a)
    case 0
    with Cons.prems show ?thesis by simp
  next
    case (Suc b)
    with Cons.prems Cons.IH[of b] show ?thesis by simp
  qed
qed

lemma count_update_le: "\<not> P x \<Longrightarrow> length (filter P (h[a := x])) \<le> length (filter P h)"
proof (induction h arbitrary: a)
  case Nil
  then show ?case by simp
next
  case (Cons y h)
  show ?case
  proof (cases a)
    case 0
    with Cons.prems show ?thesis by simp
  next
    case (Suc b)
    with Cons.prems Cons.IH[of b] show ?thesis by simp
  qed
qed

lemma assign_component_unassigned:
  assumes "assign_component componentsRef cmp h = Some (c, h1)"
  shows "unassigned_h h1 \<le> unassigned_h h"
proof (cases cmp)
  case None
  with assms obtain cs where "h1 = h[componentsRef := StringArray (cs @ [c])]"
    by (auto simp: assign_component_def Let_def split: option.splits)
  then show ?thesis unfolding unassigned_h_def by (simp add: count_update_le)
next
  case (Some c')
  with assms show ?thesis by (simp add: assign_component_def)
qed

lemma assign_component_vertex:
  assumes "assign_component componentsRef cmp h = Some (c, h1)" "vertex_at h s = Some src"
  shows "vertex_at h1 s = Some src \<and> length h1 = length h"
proof (cases cmp)
  case None
  with assms(1) obtain cs where h1: "h1 = h[componentsRef := StringArray (cs @ [c])]"
    and cs: "strings_at h componentsRef = Some cs"
    by (auto simp: assign_component_def Let_def split: option.splits)
  from cs assms(2) have "componentsRef \<noteq> s"
    by (auto simp: strings_at_def vertex_at_def split: option.splits obj.splits)
  with assms(2) h1 show ?thesis by (simp add: vertex_at_def cell_update)
next
  case (Some c')
  with assms show ?thesis by (simp add: assign_component_def)
qed

lemma assign_component_name:
  assumes "assign_component componentsRef cmp h = Some (c, h1)" "Some NONE_COMPONENT \<noteq> cmp"
  shows "c \<noteq> NONE_COMPONENT"
  using assms
  by (auto simp: assign_component_def Let_def NONE_COMPONENT_not_name split: option.splits)

lemma set_component_h_unassigned:
  assumes "vertex_at h s = Some src" "component src = NONE_COMPONENT" "c \<noteq> NONE_COMPONENT"
  shows "unassigned_h (h[s := VertexObj (src\<lparr>component := c\<rparr>)]) < unassigned_h h"
proof -
  from assms(1) have s: "s < length h" "h ! s = VertexObj src"
    by (auto simp: vertex_at_def cell_def split: if_splits option.splits obj.splits)
  show ?thesis
    unfolding unassigned_h_def using s assms(2,3) by (intro count_update_less) simp_all
qed

lemma visit_h_unassigned_partial:
  "visit_h_visit_each_h_dom (Inl (nodesRef, linksRef, componentsRef, h, t, cmp)) \<Longrightarrow>
     visit_h nodesRef linksRef componentsRef h t cmp = Returned u h' \<Longrightarrow>
     unassigned_h h' \<le> unassigned_h h"
  "visit_h_visit_each_h_dom (Inr (nodesRef, linksRef, componentsRef, h, ts, cmp)) \<Longrightarrow>
     visit_each_h nodesRef linksRef componentsRef h ts cmp = Returned u h' \<Longrightarrow>
     unassigned_h h' \<le> unassigned_h h"
proof (induction nodesRef linksRef componentsRef h t cmp and nodesRef linksRef componentsRef h ts cmp
    arbitrary: h' u and h' u rule: visit_h_visit_each_h.pinduct)
  case (1 nodesRef linksRef componentsRef h cmp)
  then show ?case by (simp add: visit_h.psimps)
next
  case (2 nodesRef linksRef componentsRef h s cmp)
  from "2.prems" "2.hyps" obtain src where src: "vertex_at h s = Some src"
    by (auto simp: visit_h.psimps split: option.splits)
  show ?case
  proof (cases "component src \<noteq> NONE_COMPONENT \<or> Some (component src) = cmp")
    case True
    with "2.prems" "2.hyps" src show ?thesis by (simp add: visit_h.psimps)
  next
    case False
    with "2.prems" "2.hyps" src obtain c h1 allTargets where
      a: "assign_component componentsRef cmp h = Some (c, h1)"
      and t: "all_targets_h nodesRef linksRef (h1[s := VertexObj (src\<lparr>component := c\<rparr>)]) (id' src) =
              Some allTargets"
      and run: "visit_each_h nodesRef linksRef componentsRef
                  (h1[s := VertexObj (src\<lparr>component := c\<rparr>)]) allTargets (Some c) = Returned u h'"
      by (auto simp: visit_h.psimps split: option.splits prod.splits)
    from False have "Some NONE_COMPONENT \<noteq> cmp" by auto
    from assign_component_name[OF a this] have c: "c \<noteq> NONE_COMPONENT" .
    from assign_component_vertex[OF a src] have src1: "vertex_at h1 s = Some src" by simp
    have "unassigned_h h' \<le> unassigned_h (h1[s := VertexObj (src\<lparr>component := c\<rparr>)])"
      using "2.IH"[OF src False a refl t run] by simp
    also have "\<dots> < unassigned_h h1"
      using False c by (intro set_component_h_unassigned[OF src1]) auto
    also have "\<dots> \<le> unassigned_h h" by (rule assign_component_unassigned[OF a])
    finally show ?thesis by simp
  qed
next
  case (3 nodesRef linksRef componentsRef h cmp)
  then show ?case by (simp add: visit_each_h.psimps)
next
  case (4 nodesRef linksRef componentsRef h t ts cmp)
  from "4.prems" "4.hyps" obtain u1 h1 where
    v: "visit_h nodesRef linksRef componentsRef h t cmp = Returned u1 h1"
    and r: "visit_each_h nodesRef linksRef componentsRef h1 ts cmp = Returned u h'"
    by (auto simp: visit_each_h.psimps split: outcome.splits)
  from "4.IH"(1)[OF v] "4.IH"(2)[OF v r] show ?case by simp
qed

termination visit_h
proof (relation "measures
    [\<lambda>x. case x of Inl (nodesRef, linksRef, componentsRef, h, t, cmp) \<Rightarrow> unassigned_h h
               | Inr (nodesRef, linksRef, componentsRef, h, ts, cmp) \<Rightarrow> unassigned_h h,
     \<lambda>x. case x of Inl (nodesRef, linksRef, componentsRef, h, t, cmp) \<Rightarrow> 0
               | Inr (nodesRef, linksRef, componentsRef, h, ts, cmp) \<Rightarrow> Suc (length ts)]",
    goal_cases)
  case 1
  then show ?case by simp
next
  case (2 nodesRef linksRef componentsRef h s cmp src x c h1 allTargets)
  from 2 have a: "assign_component componentsRef cmp h = Some (c, h1)" by simp
  from 2 have "Some NONE_COMPONENT \<noteq> cmp" by auto
  from assign_component_name[OF a this] have c: "c \<noteq> NONE_COMPONENT" .
  from assign_component_vertex[OF a 2(1)] have src1: "vertex_at h1 s = Some src" by simp
  have "unassigned_h (h1[s := VertexObj (src\<lparr>component := c\<rparr>)]) < unassigned_h h1"
    using 2 c by (intro set_component_h_unassigned[OF src1]) auto
  also have "\<dots> \<le> unassigned_h h" by (rule assign_component_unassigned[OF a])
  finally show ?case by simp
next
  case (3 nodesRef linksRef componentsRef h t ts cmp)
  then show ?case by simp
next
  case (4 nodesRef linksRef componentsRef h t ts cmp u h1)
  then show ?case
    using visit_h_unassigned_partial(1)[of nodesRef linksRef componentsRef h t cmp u h1] by auto
qed

fun forEach_visit_h :: "addr \<Rightarrow> addr \<Rightarrow> addr \<Rightarrow> addr list \<Rightarrow> store \<Rightarrow> unit outcome" where
  "forEach_visit_h nodesRef linksRef componentsRef [] h = Returned () h"
| "forEach_visit_h nodesRef linksRef componentsRef (node # rest) h =
     (case visit_h nodesRef linksRef componentsRef h (Some node) None of
        Returned u h' \<Rightarrow> forEach_visit_h nodesRef linksRef componentsRef rest h'
      | Threw e h' \<Rightarrow> Threw e h'
      | Stuck \<Rightarrow> Stuck)"

definition graph_at :: "store \<Rightarrow> addr \<Rightarrow> (addr \<times> addr \<times> addr) option" where
  "graph_at h a = (case cell h a of Some (GraphObj n l c) \<Rightarrow> Some (n, l, c) | _ \<Rightarrow> None)"

text \<open>\<^verbatim>\<open>identifyComponents(graph)\<close> allocates \<^verbatim>\<open>components\<close> and returns it. The fields
  \<^verbatim>\<open>nodes\<close> and \<^verbatim>\<open>links\<close> of the graph object are never assigned to, so the visits get
  the two arrays they refer to.\<close>

definition identifyComponents_h :: "addr \<Rightarrow> store \<Rightarrow> addr outcome" where
  "identifyComponents_h graph h =
     (case graph_at h graph of
        None \<Rightarrow> Stuck
      | Some (nodesRef, linksRef, c) \<Rightarrow>
          (let componentsRef = length h;
               h1 = h @ [StringArray []]
           in case vertices_at h1 nodesRef of
                None \<Rightarrow> Stuck
              | Some vs \<Rightarrow>
                  (case forEach_visit_h nodesRef linksRef componentsRef vs h1 of
                     Returned u h2 \<Rightarrow> Returned componentsRef h2
                   | Threw e h2 \<Rightarrow> Threw e h2
                   | Stuck \<Rightarrow> Stuck)))"

text \<open>\<^verbatim>\<open>buildGraph\<close>: the literal allocates the three arrays and the graph object; the
  last write is \<^verbatim>\<open>graph.components = ...\<close>. The result is the reference of the graph.\<close>

definition buildGraph_h :: "(string \<Rightarrow> string) \<Rightarrow> LinkProviderObj \<Rightarrow> store \<Rightarrow> addr outcome" where
  "buildGraph_h basename this h =
     (let nodesRef = length h;
          linksRef = length h + 1;
          graph = length h + 3;
          h0 = h @ [VertexArray [], LinkArray [], StringArray [],
                    GraphObj nodesRef linksRef (length h + 2)]
      in case map_at h0 (fileLinkDatabase_ref this) of
           None \<Rightarrow> Stuck
         | Some entries \<Rightarrow>
             (case collect_entries_h basename nodesRef linksRef entries h0 of
                None \<Rightarrow> Stuck
              | Some h1 \<Rightarrow>
                  (case links_at h1 linksRef of
                     None \<Rightarrow> Stuck
                   | Some ls \<Rightarrow>
                       (case clear_isolate_h nodesRef (new_Set [] (map source ls)) h1 of
                          Stuck \<Rightarrow> Stuck
                        | Threw e h2 \<Rightarrow> Threw e h2
                        | Returned u h2 \<Rightarrow>
                            (case clear_isolate_h nodesRef (new_Set [] (map target ls)) h2 of
                               Stuck \<Rightarrow> Stuck
                             | Threw e h3 \<Rightarrow> Threw e h3
                             | Returned u' h3 \<Rightarrow>
                                 (case identifyComponents_h graph h3 of
                                    Stuck \<Rightarrow> Stuck
                                  | Threw e h4 \<Rightarrow> Threw e h4
                                  | Returned cs h4 \<Rightarrow>
                                      (case graph_at h4 graph of
                                         None \<Rightarrow> Stuck
                                       | Some (n, l, c) \<Rightarrow>
                                           Returned graph (h4[graph := GraphObj n l cs]))))))))"

subsection \<open>Reading the store\<close>

text \<open>The store a call leaves, if it is not stuck.\<close>

fun final_store :: "'a outcome \<Rightarrow> store option" where
  "final_store (Returned x h) = Some h"
| "final_store (Threw e h) = Some h"
| "final_store Stuck = None"

text \<open>The provider is well formed in a store when its two fields refer to maps and every
  value of the maps refers to an array of strings.\<close>

definition map_ok :: "store \<Rightarrow> addr \<Rightarrow> bool" where
  "map_ok h ma = (case map_at h ma of
                    None \<Rightarrow> False
                  | Some m \<Rightarrow> list_all (\<lambda>entry. strings_at h (snd entry) \<noteq> None) m)"

definition provider_ok :: "LinkProviderObj \<Rightarrow> store \<Rightarrow> bool" where
  "provider_ok this h = (map_ok h (fileLinkDatabase_ref this) \<and> map_ok h (idLinkDatabase_ref this))"

text \<open>The contents of a map: every key with the strings of the array it refers to.\<close>

definition map_contents :: "store \<Rightarrow> addr \<Rightarrow> (string, string list) jsmap option" where
  "map_contents h ma =
     (case map_at h ma of
        None \<Rightarrow> None
      | Some m \<Rightarrow> those (map (\<lambda>(k, a). map_option (\<lambda>xs. (k, xs)) (strings_at h a)) m))"

text \<open>No object that exists in \<open>h\<close> differs in \<open>h'\<close>: whatever was written went to
  objects allocated since.\<close>

definition unchanged :: "store \<Rightarrow> store \<Rightarrow> bool" where
  "unchanged h h' = (length h \<le> length h' \<and> (\<forall>a<length h. h' ! a = h ! a))"

text \<open>The same for the objects below an address \<open>base\<close>, between two stores of a call
  that began with \<open>base\<close> objects.\<close>

definition evolves :: "nat \<Rightarrow> store \<Rightarrow> store \<Rightarrow> bool" where
  "evolves base h h' = (length h \<le> length h' \<and> (\<forall>a<base. cell h' a = cell h a))"

text \<open>The graph under construction: its arrays and all its vertices were allocated by
  the call.\<close>

definition graph_ok :: "nat \<Rightarrow> addr \<Rightarrow> addr \<Rightarrow> store \<Rightarrow> bool" where
  "graph_ok base nodesRef linksRef h =
     (base \<le> nodesRef \<and> base \<le> linksRef \<and> (\<exists>ls. cell h linksRef = Some (LinkArray ls)) \<and>
      (\<exists>vs. cell h nodesRef = Some (VertexArray vs) \<and>
         (\<forall>v \<in> set vs. base \<le> v \<and> (\<exists>x. cell h v = Some (VertexObj x)))))"

lemma evolves_refl: "evolves base h h"
  by (simp add: evolves_def)

lemma evolves_trans: "evolves base h h' \<Longrightarrow> evolves base h' h'' \<Longrightarrow> evolves base h h''"
  by (simp add: evolves_def)

lemma evolves_update: "base \<le> a \<Longrightarrow> evolves base h (h[a := x])"
  by (simp add: evolves_def cell_update)

lemma evolves_append: "base \<le> length h \<Longrightarrow> evolves base h (h @ xs)"
  by (simp add: evolves_def cell_append)

lemma evolves_unchanged: "evolves (length h) h h' \<Longrightarrow> unchanged h h'"
  by (auto simp: evolves_def unchanged_def cell_def split: if_splits)

lemma evolves_strings: "evolves base h h' \<Longrightarrow> a < base \<Longrightarrow> strings_at h' a = strings_at h a"
  by (simp add: evolves_def strings_at_def)

lemma evolves_map: "evolves base h h' \<Longrightarrow> a < base \<Longrightarrow> map_at h' a = map_at h a"
  by (simp add: evolves_def map_at_def)

section \<open>The read methods write to new objects only\<close>

subsection \<open>Reading after a write\<close>

lemma strings_at_cell: "strings_at h a = Some xs \<longleftrightarrow> cell h a = Some (StringArray xs)"
  by (auto simp: strings_at_def split: option.splits obj.splits)

lemma map_at_cell: "map_at h a = Some m \<longleftrightarrow> cell h a = Some (StringMap m)"
  by (auto simp: map_at_def split: option.splits obj.splits)

lemma vertex_at_cell: "vertex_at h a = Some v \<longleftrightarrow> cell h a = Some (VertexObj v)"
  by (auto simp: vertex_at_def split: option.splits obj.splits)

lemma vertices_at_cell: "vertices_at h a = Some vs \<longleftrightarrow> cell h a = Some (VertexArray vs)"
  by (auto simp: vertices_at_def split: option.splits obj.splits)

lemma links_at_cell: "links_at h a = Some ls \<longleftrightarrow> cell h a = Some (LinkArray ls)"
  by (auto simp: links_at_def split: option.splits obj.splits)

lemma graph_at_cell: "graph_at h a = Some (n, l, c) \<longleftrightarrow> cell h a = Some (GraphObj n l c)"
  by (auto simp: graph_at_def split: option.splits obj.splits)

lemma cell_less: "cell h a = Some x \<Longrightarrow> a < length h"
  by (simp add: cell_def split: if_splits)

lemma cell_evolves: "evolves base h h' \<Longrightarrow> a < base \<Longrightarrow> cell h' a = cell h a"
  by (simp add: evolves_def)

text \<open>A write to an object keeps the objects of every other address, and the kind of its
  own when the new contents are of the kind of the old.\<close>

lemma cell_other: "a \<noteq> b \<Longrightarrow> cell (h[a := x]) b = cell h b"
  by (simp add: cell_update)

lemma cell_same: "cell h a = Some y \<Longrightarrow> cell (h[a := x]) a = Some x"
  by (simp add: cell_update cell_less)

lemma cell_append_old: "cell h a = Some x \<Longrightarrow> cell (h @ xs) a = Some x"
  by (simp add: cell_append cell_less)

lemma cell_append_new: "cell (h @ [x]) (length h) = Some x"
  by (simp add: cell_append)

subsection \<open>The index\<close>

definition entries_ok :: "nat \<Rightarrow> store \<Rightarrow> (string, addr) jsmap \<Rightarrow> bool" where
  "entries_ok base h m = list_all (\<lambda>entry. snd entry < base \<and> strings_at h (snd entry) \<noteq> None) m"

lemma entries_ok_evolves: "entries_ok base h m \<Longrightarrow> evolves base h h' \<Longrightarrow> entries_ok base h' m"
  by (auto simp: entries_ok_def list_all_iff evolves_strings)

lemma entries_ok_Cons:
  "entries_ok base h ((k, a) # m) \<longleftrightarrow> a < base \<and> strings_at h a \<noteq> None \<and> entries_ok base h m"
  by (simp add: entries_ok_def)

lemma map_ok_entries:
  assumes "map_ok h ma"
  shows "\<exists>m. map_at h ma = Some m \<and> entries_ok (length h) h m"
proof -
  from assms obtain m where m: "map_at h ma = Some m"
    and all: "list_all (\<lambda>entry. strings_at h (snd entry) \<noteq> None) m"
    by (auto simp: map_ok_def split: option.splits)
  have "snd entry < length h" if "strings_at h (snd entry) \<noteq> None" for entry
    using that by (auto simp: strings_at_cell dest: cell_less)
  with all have "entries_ok (length h) h m" by (auto simp: entries_ok_def list_all_iff)
  with m show ?thesis by blast
qed

text \<open>What is below \<open>base\<close> stays, so the maps and their contents stay.\<close>

lemma unchanged_cell: "unchanged h h' \<Longrightarrow> cell h a = Some x \<Longrightarrow> cell h' a = Some x"
  by (auto simp: unchanged_def cell_def split: if_splits)

lemma unchanged_map_contents:
  assumes u: "unchanged h h'" and ok: "map_ok h ma"
  shows "map_contents h' ma = map_contents h ma \<and> map_ok h' ma"
proof -
  from ok obtain m where m: "map_at h ma = Some m"
    and all: "\<forall>entry \<in> set m. strings_at h (snd entry) \<noteq> None"
    by (auto simp: map_ok_def list_all_iff split: option.splits)
  from m u have m': "map_at h' ma = Some m"
    by (simp add: map_at_cell unchanged_cell)
  have same: "strings_at h' (snd entry) = strings_at h (snd entry)" if "entry \<in> set m" for entry
  proof -
    from all that obtain xs where xs: "strings_at h (snd entry) = Some xs" by auto
    then have "cell h (snd entry) = Some (StringArray xs)" by (simp add: strings_at_cell)
    from unchanged_cell[OF u this] have "strings_at h' (snd entry) = Some xs"
      by (simp add: strings_at_cell)
    with xs show ?thesis by simp
  qed
  have eq: "map (\<lambda>(k, a). map_option (\<lambda>xs. (k, xs)) (strings_at h' a)) m =
        map (\<lambda>(k, a). map_option (\<lambda>xs. (k, xs)) (strings_at h a)) m"
    using same by (intro map_cong) (auto split: prod.splits)
  have 1: "map_contents h' ma = map_contents h ma"
    by (simp only: map_contents_def m m' option.case eq)
  have 2: "map_ok h' ma"
    using m' all same by (simp add: map_ok_def list_all_iff)
  from 1 2 show ?thesis by simp
qed

lemma retrieveOutbound_h_frame:
  assumes "provider_ok this h"
  shows "\<exists>r h'. retrieveOutbound_h this sourceFilePath h = Returned r h' \<and> unchanged h h'"
proof -
  from assms obtain m where "map_at h (fileLinkDatabase_ref this) = Some m"
    by (auto simp: provider_ok_def map_ok_def split: option.splits)
  then show ?thesis
    by (auto simp: retrieveOutbound_h_def unchanged_def nth_append split: option.splits)
qed

lemma inbound_scan_h_frame:
  "entries_ok base h m \<Longrightarrow> base \<le> sourceFiles \<Longrightarrow> strings_at h sourceFiles \<noteq> None \<Longrightarrow>
   \<exists>h'. inbound_scan_h sourceFilePath sourceFiles m h = Some h' \<and> evolves base h h'"
proof (induction sourceFilePath sourceFiles m h rule: inbound_scan_h.induct)
  case (1 sourceFilePath sourceFiles h)
  then show ?case by (simp add: evolves_refl)
next
  case (2 sourceFilePath sourceFiles fl outbound entries h)
  from "2.prems"(1) obtain outboundLinks where
    o: "strings_at h outbound = Some outboundLinks" and rest: "entries_ok base h entries"
    by (auto simp: entries_ok_Cons)
  show ?case
  proof (cases "sourceFilePath \<in> set outboundLinks")
    case False
    with "2.IH"(2)[OF o False rest "2.prems"(2,3)] o show ?thesis by simp
  next
    case True
    from "2.prems"(3) obtain xs where xs: "strings_at h sourceFiles = Some xs" by auto
    let ?h = "h[sourceFiles := StringArray (xs @ [fl])]"
    have p: "push_string sourceFiles fl h = Some ?h" by (simp add: push_string_def xs)
    have e: "evolves base h ?h" by (rule evolves_update[OF "2.prems"(2)])
    have s: "strings_at ?h sourceFiles \<noteq> None"
      using xs by (simp add: strings_at_cell cell_same)
    from "2.IH"(1)[OF o True p entries_ok_evolves[OF rest e] "2.prems"(2) s]
    obtain h' where "inbound_scan_h sourceFilePath sourceFiles entries ?h = Some h'"
      "evolves base ?h h'" by blast
    with o True p e show ?thesis by (auto intro: evolves_trans)
  qed
qed

lemma retrieveInbound_h_frame:
  assumes "provider_ok this h"
  shows "\<exists>r h'. retrieveInbound_h this sourceFilePath h = Returned r h' \<and> unchanged h h'"
proof -
  from assms have "map_ok h (fileLinkDatabase_ref this)" by (simp add: provider_ok_def)
  from map_ok_entries[OF this] obtain m where
    m: "map_at h (fileLinkDatabase_ref this) = Some m" and ok: "entries_ok (length h) h m"
    by blast
  let ?h = "h @ [StringArray []]"
  have e0: "evolves (length h) h ?h" by (rule evolves_append) simp
  have s: "strings_at ?h (length h) \<noteq> None" by (simp add: strings_at_def cell_append)
  from inbound_scan_h_frame[OF entries_ok_evolves[OF ok e0] order_refl s]
  obtain h' where run: "inbound_scan_h sourceFilePath (length h) m ?h = Some h'"
    and e: "evolves (length h) ?h h'"
    by blast
  from evolves_trans[OF e0 e] have "unchanged h h'" by (rule evolves_unchanged)
  with m run show ?thesis by (simp add: retrieveInbound_h_def)
qed

subsection \<open>The graph under construction\<close>

text \<open>Graph objects are not written by the loops of the builder and the labeler.\<close>

definition graphs_kept :: "store \<Rightarrow> store \<Rightarrow> bool" where
  "graphs_kept h h' = (\<forall>a n l c. cell h a = Some (GraphObj n l c) \<longrightarrow> cell h' a = Some (GraphObj n l c))"

text \<open>A step of the builder: the objects below \<open>base\<close> and the graph objects stay, and the
  graph under construction is still made of objects of the call.\<close>

definition builds :: "nat \<Rightarrow> addr \<Rightarrow> addr \<Rightarrow> store \<Rightarrow> store \<Rightarrow> bool" where
  "builds base nodesRef linksRef h h' =
     (evolves base h h' \<and> graphs_kept h h' \<and> graph_ok base nodesRef linksRef h')"

lemma graph_okI:
  "base \<le> nodesRef \<Longrightarrow> base \<le> linksRef \<Longrightarrow> cell h linksRef = Some (LinkArray ls) \<Longrightarrow>
   cell h nodesRef = Some (VertexArray vs) \<Longrightarrow>
   (\<And>v. v \<in> set vs \<Longrightarrow> base \<le> v \<and> (\<exists>x. cell h v = Some (VertexObj x))) \<Longrightarrow>
   graph_ok base nodesRef linksRef h"
  unfolding graph_ok_def by blast

lemma graph_okD:
  assumes "graph_ok base nodesRef linksRef h"
  shows "base \<le> nodesRef" "base \<le> linksRef"
    "\<exists>ls. cell h linksRef = Some (LinkArray ls)"
    "\<exists>vs. cell h nodesRef = Some (VertexArray vs) \<and>
       (\<forall>v \<in> set vs. base \<le> v \<and> (\<exists>x. cell h v = Some (VertexObj x)))"
  using assms unfolding graph_ok_def by blast+

lemma graphs_kept_refl: "graphs_kept h h"
  by (simp add: graphs_kept_def)

lemma graphs_kept_trans: "graphs_kept h h' \<Longrightarrow> graphs_kept h' h'' \<Longrightarrow> graphs_kept h h''"
  unfolding graphs_kept_def by blast

lemma graphs_kept_append: "graphs_kept h (h @ xs)"
  by (simp add: graphs_kept_def cell_append_old)

lemma graphs_kept_vertex: "cell h a = Some (VertexObj v) \<Longrightarrow> graphs_kept h (h[a := x])"
  by (auto simp: graphs_kept_def cell_update split: if_splits)

lemma graphs_kept_strings: "cell h a = Some (StringArray xs) \<Longrightarrow> graphs_kept h (h[a := x])"
  by (auto simp: graphs_kept_def cell_update split: if_splits)

lemma graphs_kept_vertices: "cell h a = Some (VertexArray vs) \<Longrightarrow> graphs_kept h (h[a := x])"
  by (auto simp: graphs_kept_def cell_update split: if_splits)

lemma graphs_kept_links: "cell h a = Some (LinkArray ls) \<Longrightarrow> graphs_kept h (h[a := x])"
  by (auto simp: graphs_kept_def cell_update split: if_splits)


lemma builds_refl: "graph_ok base nodesRef linksRef h \<Longrightarrow> builds base nodesRef linksRef h h"
  by (simp add: builds_def evolves_refl graphs_kept_refl)

lemma builds_trans:
  "builds base nodesRef linksRef h h' \<Longrightarrow> builds base nodesRef linksRef h' h'' \<Longrightarrow>
   builds base nodesRef linksRef h h''"
  unfolding builds_def by (blast intro: evolves_trans graphs_kept_trans)

lemma builds_vertex_write:
  assumes ok: "graph_ok base nodesRef linksRef h"
    and vs: "cell h nodesRef = Some (VertexArray vs)" and v: "v \<in> set vs"
  shows "builds base nodesRef linksRef h (h[v := VertexObj y])"
proof -
  from graph_okD[OF ok] vs obtain ls where
    b: "base \<le> nodesRef" "base \<le> linksRef" and ls: "cell h linksRef = Some (LinkArray ls)"
    and each: "\<And>u. u \<in> set vs \<Longrightarrow> base \<le> u \<and> (\<exists>x. cell h u = Some (VertexObj x))"
    by auto
  from each[OF v] obtain x where bv: "base \<le> v" and x: "cell h v = Some (VertexObj x)" by blast
  let ?h = "h[v := VertexObj y]"
  from x ls vs have ne: "v \<noteq> linksRef" "v \<noteq> nodesRef" by auto
  have "graph_ok base nodesRef linksRef ?h"
  proof (rule graph_okI[OF b])
    show "cell ?h linksRef = Some (LinkArray ls)" using ne ls by (simp add: cell_other)
    show "cell ?h nodesRef = Some (VertexArray vs)" using ne vs by (simp add: cell_other)
    show "base \<le> u \<and> (\<exists>x. cell ?h u = Some (VertexObj x))" if "u \<in> set vs" for u
      using each[OF that] x by (cases "u = v") (auto simp: cell_same cell_other)
  qed
  with bv x show ?thesis
    by (simp add: builds_def evolves_update graphs_kept_vertex)
qed

lemma builds_links_write:
  assumes ok: "graph_ok base nodesRef linksRef h"
  shows "builds base nodesRef linksRef h (h[linksRef := LinkArray ls'])"
proof -
  from graph_okD[OF ok] obtain ls vs where
    b: "base \<le> nodesRef" "base \<le> linksRef" and ls: "cell h linksRef = Some (LinkArray ls)"
    and vs: "cell h nodesRef = Some (VertexArray vs)"
    and each: "\<And>u. u \<in> set vs \<Longrightarrow> base \<le> u \<and> (\<exists>x. cell h u = Some (VertexObj x))"
    by auto
  let ?h = "h[linksRef := LinkArray ls']"
  from ls vs have ne: "linksRef \<noteq> nodesRef" by auto
  have "graph_ok base nodesRef linksRef ?h"
  proof (rule graph_okI[OF b])
    show "cell ?h linksRef = Some (LinkArray ls')" using ls by (simp add: cell_same)
    show "cell ?h nodesRef = Some (VertexArray vs)" using ne vs by (simp add: cell_other)
    show "base \<le> u \<and> (\<exists>x. cell ?h u = Some (VertexObj x))" if "u \<in> set vs" for u
    proof -
      from each[OF that] obtain x where "base \<le> u" "cell h u = Some (VertexObj x)" by blast
      moreover with ls have "linksRef \<noteq> u" by auto
      ultimately show ?thesis by (auto simp: cell_other)
    qed
  qed
  with b ls show ?thesis
    by (simp add: builds_def evolves_update graphs_kept_links)
qed

lemma builds_strings_write:
  assumes ok: "graph_ok base nodesRef linksRef h"
    and c: "base \<le> c" "cell h c = Some (StringArray cs)"
  shows "builds base nodesRef linksRef h (h[c := StringArray cs'])"
proof -
  from graph_okD[OF ok] obtain ls vs where
    b: "base \<le> nodesRef" "base \<le> linksRef" and ls: "cell h linksRef = Some (LinkArray ls)"
    and vs: "cell h nodesRef = Some (VertexArray vs)"
    and each: "\<And>u. u \<in> set vs \<Longrightarrow> base \<le> u \<and> (\<exists>x. cell h u = Some (VertexObj x))"
    by auto
  let ?h = "h[c := StringArray cs']"
  from ls vs c have ne: "c \<noteq> nodesRef" "c \<noteq> linksRef" by auto
  have "graph_ok base nodesRef linksRef ?h"
  proof (rule graph_okI[OF b])
    show "cell ?h linksRef = Some (LinkArray ls)" using ne ls by (simp add: cell_other)
    show "cell ?h nodesRef = Some (VertexArray vs)" using ne vs by (simp add: cell_other)
    show "base \<le> u \<and> (\<exists>x. cell ?h u = Some (VertexObj x))" if "u \<in> set vs" for u
    proof -
      from each[OF that] obtain x where "base \<le> u" "cell h u = Some (VertexObj x)" by blast
      moreover with c have "c \<noteq> u" by auto
      ultimately show ?thesis by (auto simp: cell_other)
    qed
  qed
  with c show ?thesis
    by (simp add: builds_def evolves_update graphs_kept_strings)
qed

lemma builds_append:
  assumes ok: "graph_ok base nodesRef linksRef h" and len: "base \<le> length h"
  shows "builds base nodesRef linksRef h (h @ xs)"
proof -
  from graph_okD[OF ok] obtain ls vs where
    b: "base \<le> nodesRef" "base \<le> linksRef" and ls: "cell h linksRef = Some (LinkArray ls)"
    and vs: "cell h nodesRef = Some (VertexArray vs)"
    and each: "\<And>u. u \<in> set vs \<Longrightarrow> base \<le> u \<and> (\<exists>x. cell h u = Some (VertexObj x))"
    by auto
  have "graph_ok base nodesRef linksRef (h @ xs)"
  proof (rule graph_okI[OF b])
    show "cell (h @ xs) linksRef = Some (LinkArray ls)" using ls by (rule cell_append_old)
    show "cell (h @ xs) nodesRef = Some (VertexArray vs)" using vs by (rule cell_append_old)
    show "base \<le> u \<and> (\<exists>x. cell (h @ xs) u = Some (VertexObj x))" if "u \<in> set vs" for u
      using each[OF that] by (auto simp: cell_append_old)
  qed
  with len show ?thesis
    by (simp add: builds_def evolves_append graphs_kept_append)
qed

lemma builds_new_vertex:
  assumes ok: "graph_ok base nodesRef linksRef h" and len: "base \<le> length h"
    and vs: "cell h nodesRef = Some (VertexArray vs)"
  shows "builds base nodesRef linksRef h
           ((h @ [VertexObj x])[nodesRef := VertexArray (vs @ [length h])])"
proof -
  from graph_okD[OF ok] vs obtain ls where
    b: "base \<le> nodesRef" "base \<le> linksRef" and ls: "cell h linksRef = Some (LinkArray ls)"
    and each: "\<And>u. u \<in> set vs \<Longrightarrow> base \<le> u \<and> (\<exists>x. cell h u = Some (VertexObj x))"
    by auto
  let ?h1 = "h @ [VertexObj x]"
  let ?h = "?h1[nodesRef := VertexArray (vs @ [length h])]"
  have vs1: "cell ?h1 nodesRef = Some (VertexArray vs)" using vs by (rule cell_append_old)
  have n: "nodesRef < length h" using vs by (rule cell_less)
  from ls vs have ne: "nodesRef \<noteq> linksRef" by auto
  have "graph_ok base nodesRef linksRef ?h"
  proof (rule graph_okI[OF b])
    show "cell ?h linksRef = Some (LinkArray ls)"
      using ne ls by (simp add: cell_other cell_append_old)
    show "cell ?h nodesRef = Some (VertexArray (vs @ [length h]))"
      using vs1 by (rule cell_same)
    show "base \<le> u \<and> (\<exists>y. cell ?h u = Some (VertexObj y))" if "u \<in> set (vs @ [length h])" for u
    proof (cases "u = length h")
      case True
      with n len show ?thesis by (simp add: cell_other cell_append_new)
    next
      case False
      with that have "u \<in> set vs" by simp
      from each[OF this] obtain y where "base \<le> u" "cell h u = Some (VertexObj y)" by blast
      moreover with vs have "nodesRef \<noteq> u" by auto
      ultimately show ?thesis by (auto simp: cell_other cell_append_old)
    qed
  qed
  moreover have "evolves base h ?h"
    using evolves_trans[OF evolves_append[OF len, of "[VertexObj x]"] evolves_update[OF b(1)]]
    by simp
  moreover have "graphs_kept h ?h"
    using graphs_kept_trans[OF graphs_kept_append graphs_kept_vertices[OF vs1]] by simp
  ultimately show ?thesis by (simp add: builds_def)
qed

lemma builds_length: "builds base nodesRef linksRef h h' \<Longrightarrow> base \<le> length h \<Longrightarrow> base \<le> length h'"
  by (simp add: builds_def evolves_def)

lemma find_vertex_ok:
  "(\<And>v. v \<in> set vs \<Longrightarrow> \<exists>x. cell h v = Some (VertexObj x)) \<Longrightarrow>
   find_vertex h a vs = Some None \<or> (\<exists>v \<in> set vs. find_vertex h a vs = Some (Some v))"
proof (induction vs)
  case Nil
  then show ?case by simp
next
  case (Cons v vs)
  from Cons.prems[of v] obtain x where x: "vertex_at h v = Some x"
    by (auto simp: vertex_at_cell)
  from Cons.IH Cons.prems have
    "find_vertex h a vs = Some None \<or> (\<exists>u \<in> set vs. find_vertex h a vs = Some (Some u))"
    by simp
  with x show ?case by auto
qed

lemma those_map_ok:
  "(\<And>y. y \<in> set ys \<Longrightarrow> \<exists>r. f y = Some r \<and> Q r) \<Longrightarrow>
   \<exists>rs. those (map f ys) = Some rs \<and> (\<forall>r \<in> set rs. Q r)"
proof (induction ys)
  case Nil
  then show ?case by simp
next
  case (Cons y ys)
  from Cons.prems[of y] obtain r where r: "f y = Some r" "Q r" by auto
  from Cons.IH Cons.prems obtain rs where "those (map f ys) = Some rs" "\<forall>r \<in> set rs. Q r"
    by auto
  with r show ?case by auto
qed

subsection \<open>The loops of the builder\<close>

lemma collect_entries_h_frame:
  "graph_ok base nodesRef linksRef h \<Longrightarrow> base \<le> length h \<Longrightarrow> entries_ok base h m \<Longrightarrow>
   \<exists>h'. collect_entries_h basename nodesRef linksRef m h = Some h' \<and>
        builds base nodesRef linksRef h h'"
proof (induction m arbitrary: h)
  case Nil
  then show ?case by (simp add: builds_refl)
next
  case (Cons entry m)
  obtain fl outbound where entry: "entry = (fl, outbound)" by (cases entry)
  from Cons.prems(3) obtain targets where
    o: "outbound < base" "strings_at h outbound = Some targets" and rest: "entries_ok base h m"
    by (auto simp: entry entries_ok_Cons)
  from graph_okD(4)[OF Cons.prems(1)] obtain vs where
    vs: "cell h nodesRef = Some (VertexArray vs)"
    and each: "\<And>v. v \<in> set vs \<Longrightarrow> \<exists>x. cell h v = Some (VertexObj x)"
    by blast
  from find_vertex_ok[OF each, of vs fl] obtain foundVertex where
    f: "find_vertex h fl vs = Some foundVertex" by blast
  define h1 where "h1 = (if foundVertex = None
      then (h @ [VertexObj \<lparr>id' = fl, label = basename fl,
                  component = NONE_COMPONENT, isolate = True\<rparr>])
             [nodesRef := VertexArray (vs @ [length h])]
      else h)"
  have b1: "builds base nodesRef linksRef h h1"
    unfolding h1_def using builds_new_vertex[OF Cons.prems(1,2) vs] builds_refl[OF Cons.prems(1)]
    by simp
  then have e1: "evolves base h h1" and ok1: "graph_ok base nodesRef linksRef h1"
    by (simp_all add: builds_def)
  have o1: "strings_at h1 outbound = Some targets"
    using evolves_strings[OF e1 o(1)] o(2) by simp
  from graph_okD(3)[OF ok1] obtain ls where ls: "links_at h1 linksRef = Some ls"
    by (auto simp: links_at_cell)
  define h2 where "h2 = h1[linksRef := LinkArray (ls @
      map (\<lambda>t. \<lparr>source = fl, target = t, weight = 1\<rparr>) targets)]"
  have b2: "builds base nodesRef linksRef h1 h2"
    unfolding h2_def by (rule builds_links_write[OF ok1])
  have b: "builds base nodesRef linksRef h h2" by (rule builds_trans[OF b1 b2])
  then have e2: "evolves base h h2" and ok2: "graph_ok base nodesRef linksRef h2"
    by (simp_all add: builds_def)
  from Cons.IH[OF ok2 builds_length[OF b Cons.prems(2)] entries_ok_evolves[OF rest e2]]
  obtain h' where run: "collect_entries_h basename nodesRef linksRef m h2 = Some h'"
    and b3: "builds base nodesRef linksRef h2 h'"
    by blast
  have "collect_entries_h basename nodesRef linksRef (entry # m) h =
        collect_entries_h basename nodesRef linksRef m h2"
    unfolding h2_def h1_def entry
    using vs f o1[unfolded h1_def] ls[unfolded h1_def]
    by (simp add: vertices_at_cell[symmetric] Let_def)
  with run builds_trans[OF b b3] show ?case by simp
qed

lemma clear_isolate_h_frame:
  "graph_ok base nodesRef linksRef h \<Longrightarrow>
   \<exists>h'. final_store (clear_isolate_h nodesRef es h) = Some h' \<and> builds base nodesRef linksRef h h'"
proof (induction es arbitrary: h)
  case Nil
  then show ?case by (simp add: builds_refl)
next
  case (Cons endpoint rest)
  from graph_okD(4)[OF Cons.prems] obtain vs where
    vs: "cell h nodesRef = Some (VertexArray vs)"
    and each: "\<And>v. v \<in> set vs \<Longrightarrow> \<exists>x. cell h v = Some (VertexObj x)"
    by blast
  from vs have vs': "vertices_at h nodesRef = Some vs" by (simp add: vertices_at_cell)
  from find_vertex_ok[OF each, of vs endpoint]
  consider "find_vertex h endpoint vs = Some None"
    | v where "v \<in> set vs" "find_vertex h endpoint vs = Some (Some v)"
    by blast
  then show ?case
  proof cases
    case 1
    with vs' show ?thesis by (simp add: builds_refl[OF Cons.prems])
  next
    case 2
    from each[OF 2(1)] obtain node where node: "vertex_at h v = Some node"
      by (auto simp: vertex_at_cell)
    let ?h = "h[v := VertexObj (node\<lparr>isolate := False\<rparr>)]"
    have b: "builds base nodesRef linksRef h ?h"
      by (rule builds_vertex_write[OF Cons.prems vs 2(1)])
    then have "graph_ok base nodesRef linksRef ?h" by (simp add: builds_def)
    from Cons.IH[OF this] obtain h' where
      "final_store (clear_isolate_h nodesRef rest ?h) = Some h'" "builds base nodesRef linksRef ?h h'"
      by blast
    with vs' 2 node builds_trans[OF b] show ?thesis by auto
  qed
qed

subsection \<open>The labeler\<close>

text \<open>A step of the labeler: a step of the builder that leaves the array of vertices alone
  and \<^verbatim>\<open>components\<close> an array of strings.\<close>

definition labels :: "nat \<Rightarrow> addr \<Rightarrow> addr \<Rightarrow> addr \<Rightarrow> store \<Rightarrow> store \<Rightarrow> bool" where
  "labels base nodesRef linksRef componentsRef h h' =
     (builds base nodesRef linksRef h h' \<and> cell h' nodesRef = cell h nodesRef \<and>
      (\<exists>cs. cell h' componentsRef = Some (StringArray cs)))"

lemma labels_refl:
  "graph_ok base nodesRef linksRef h \<Longrightarrow> cell h componentsRef = Some (StringArray cs) \<Longrightarrow>
   labels base nodesRef linksRef componentsRef h h"
  by (simp add: labels_def builds_refl)

lemma labels_trans:
  "labels base nodesRef linksRef componentsRef h h' \<Longrightarrow>
   labels base nodesRef linksRef componentsRef h' h'' \<Longrightarrow>
   labels base nodesRef linksRef componentsRef h h''"
  unfolding labels_def by (auto intro: builds_trans)

lemma all_targets_h_ok:
  assumes ok: "graph_ok base nodesRef linksRef h" and vs: "cell h nodesRef = Some (VertexArray vs)"
  shows "\<exists>ts. all_targets_h nodesRef linksRef h sid = Some ts \<and>
           (\<forall>t \<in> set ts. \<forall>v. t = Some v \<longrightarrow> v \<in> set vs)"
proof -
  from graph_okD[OF ok] vs obtain ls where ls: "links_at h linksRef = Some ls"
    and each: "\<And>v. v \<in> set vs \<Longrightarrow> \<exists>x. cell h v = Some (VertexObj x)"
    by (auto simp: links_at_cell)
  have "\<exists>r. find_vertex h y vs = Some r \<and> (\<forall>v. r = Some v \<longrightarrow> v \<in> set vs)" for y
    using find_vertex_ok[OF each, of vs y] by auto
  from those_map_ok[of "opposite_ends ls sid" "\<lambda>y. find_vertex h y vs"
      "\<lambda>r. \<forall>v. r = Some v \<longrightarrow> v \<in> set vs", OF this]
  obtain ts where "those (map (\<lambda>y. find_vertex h y vs) (opposite_ends ls sid)) = Some ts"
    "\<forall>t \<in> set ts. \<forall>v. t = Some v \<longrightarrow> v \<in> set vs"
    by blast
  with ls vs show ?thesis by (simp add: all_targets_h_def vertices_at_cell[symmetric])
qed

lemma assign_component_ok:
  assumes ok: "graph_ok base nodesRef linksRef h" and c: "base \<le> componentsRef"
    and cs: "cell h componentsRef = Some (StringArray cs)"
  shows "\<exists>c h1. assign_component componentsRef cmp h = Some (c, h1) \<and>
           labels base nodesRef linksRef componentsRef h h1"
proof (cases cmp)
  case (Some c')
  with labels_refl[OF ok cs] show ?thesis by (simp add: assign_component_def)
next
  case None
  let ?c = "component_name (length cs + 1)"
  let ?h = "h[componentsRef := StringArray (cs @ [?c])]"
  from graph_okD(4)[OF ok] obtain vs where vs: "cell h nodesRef = Some (VertexArray vs)" by blast
  with cs have "componentsRef \<noteq> nodesRef" by auto
  then have "cell ?h nodesRef = cell h nodesRef" by (simp add: cell_other)
  moreover have "cell ?h componentsRef = Some (StringArray (cs @ [?c]))" using cs by (rule cell_same)
  ultimately have "labels base nodesRef linksRef componentsRef h ?h"
    using builds_strings_write[OF ok c cs] by (simp add: labels_def)
  moreover have "assign_component componentsRef cmp h = Some (?c, ?h)"
    using None cs by (simp add: assign_component_def strings_at_cell[symmetric] Let_def)
  ultimately show ?thesis by blast
qed

lemma labels_vertex_write:
  assumes ok: "graph_ok base nodesRef linksRef h"
    and cs: "cell h componentsRef = Some (StringArray cs)"
    and vs: "cell h nodesRef = Some (VertexArray vs)" and v: "v \<in> set vs"
  shows "labels base nodesRef linksRef componentsRef h (h[v := VertexObj y])"
proof -
  from graph_okD(4)[OF ok] vs v obtain x where x: "cell h v = Some (VertexObj x)" by auto
  with cs vs have "v \<noteq> componentsRef" "v \<noteq> nodesRef" by auto
  then have "cell (h[v := VertexObj y]) nodesRef = cell h nodesRef"
    "cell (h[v := VertexObj y]) componentsRef = Some (StringArray cs)"
    using cs by (simp_all add: cell_other)
  with builds_vertex_write[OF ok vs v] show ?thesis by (simp add: labels_def)
qed

lemma labelsD:
  assumes "labels base nodesRef linksRef componentsRef h h'"
  shows "graph_ok base nodesRef linksRef h'" "cell h' nodesRef = cell h nodesRef"
    "\<exists>cs. cell h' componentsRef = Some (StringArray cs)" "evolves base h h'" "graphs_kept h h'"
  using assms by (simp_all add: labels_def builds_def)

lemma visit_h_frame:
  "graph_ok base nodesRef linksRef h \<Longrightarrow> base \<le> componentsRef \<Longrightarrow>
   \<exists>cs. cell h componentsRef = Some (StringArray cs) \<Longrightarrow>
   \<forall>v. t = Some v \<longrightarrow> (\<exists>vs. cell h nodesRef = Some (VertexArray vs) \<and> v \<in> set vs) \<Longrightarrow>
   \<exists>h'. final_store (visit_h nodesRef linksRef componentsRef h t cmp) = Some h' \<and>
        labels base nodesRef linksRef componentsRef h h'"
  and visit_each_h_frame:
  "graph_ok base nodesRef linksRef h \<Longrightarrow> base \<le> componentsRef \<Longrightarrow>
   \<exists>cs. cell h componentsRef = Some (StringArray cs) \<Longrightarrow>
   \<forall>t \<in> set ts. \<forall>v. t = Some v \<longrightarrow> (\<exists>vs. cell h nodesRef = Some (VertexArray vs) \<and> v \<in> set vs) \<Longrightarrow>
   \<exists>h'. final_store (visit_each_h nodesRef linksRef componentsRef h ts cmp) = Some h' \<and>
        labels base nodesRef linksRef componentsRef h h'"
proof (induction nodesRef linksRef componentsRef h t cmp and nodesRef linksRef componentsRef h ts cmp
    rule: visit_h_visit_each_h.induct)
  case (1 nodesRef linksRef componentsRef h cmp)
  then show ?case by (auto intro: labels_refl)
next
  case (2 nodesRef linksRef componentsRef h s cmp)
  note ok = "2.prems"(1) and c = "2.prems"(2)
  from "2.prems"(3) obtain cs where cs: "cell h componentsRef = Some (StringArray cs)" by blast
  from "2.prems"(4) obtain vs where vs: "cell h nodesRef = Some (VertexArray vs)" and s: "s \<in> set vs"
    by blast
  from graph_okD(4)[OF ok] vs s obtain src where src: "vertex_at h s = Some src"
    by (auto simp: vertex_at_cell)
  show ?case
  proof (cases "component src \<noteq> NONE_COMPONENT \<or> Some (component src) = cmp")
    case True
    with src labels_refl[OF ok cs] show ?thesis by auto
  next
    case False
    from assign_component_ok[OF ok c cs, of cmp] obtain cn h1 where
      a: "assign_component componentsRef cmp h = Some (cn, h1)"
      and l1: "labels base nodesRef linksRef componentsRef h h1"
      by blast
    note d1 = labelsD[OF l1]
    from d1(3) obtain cs1 where cs1: "cell h1 componentsRef = Some (StringArray cs1)" by blast
    from d1(2) vs have vs1: "cell h1 nodesRef = Some (VertexArray vs)" by simp
    let ?h2 = "h1[s := VertexObj (src\<lparr>component := cn\<rparr>)]"
    have l2: "labels base nodesRef linksRef componentsRef h1 ?h2"
      by (rule labels_vertex_write[OF d1(1) cs1 vs1 s])
    note d2 = labelsD[OF l2]
    from d2(2) vs1 have vs2: "cell ?h2 nodesRef = Some (VertexArray vs)" by simp
    from all_targets_h_ok[OF d2(1) vs2, of "id' src"] obtain allTargets where
      t: "all_targets_h nodesRef linksRef ?h2 (id' src) = Some allTargets"
      and tv: "\<forall>t \<in> set allTargets. \<forall>v. t = Some v \<longrightarrow> v \<in> set vs"
      by blast
    from tv vs2 have tv': "\<forall>t \<in> set allTargets. \<forall>v. t = Some v \<longrightarrow>
        (\<exists>vs. cell ?h2 nodesRef = Some (VertexArray vs) \<and> v \<in> set vs)"
      by blast
    from "2.IH"[OF src False a refl t d2(1) c d2(3) tv'] obtain h' where
      run: "final_store (visit_each_h nodesRef linksRef componentsRef ?h2 allTargets (Some cn)) = Some h'"
      and l3: "labels base nodesRef linksRef componentsRef ?h2 h'"
      by blast
    have "visit_h nodesRef linksRef componentsRef h (Some s) cmp =
          visit_each_h nodesRef linksRef componentsRef ?h2 allTargets (Some cn)"
      using src False a t by simp
    with run labels_trans[OF labels_trans[OF l1 l2] l3] show ?thesis by simp
  qed
next
  case (3 nodesRef linksRef componentsRef h cmp)
  then show ?case by (auto intro: labels_refl)
next
  case (4 nodesRef linksRef componentsRef h t ts cmp)
  from "4.prems"(4) have t: "\<forall>v. t = Some v \<longrightarrow>
      (\<exists>vs. cell h nodesRef = Some (VertexArray vs) \<and> v \<in> set vs)"
    by simp
  from "4.IH"(1)[OF "4.prems"(1-3) t] obtain h1 where
    v: "final_store (visit_h nodesRef linksRef componentsRef h t cmp) = Some h1"
    and l1: "labels base nodesRef linksRef componentsRef h h1"
    by blast
  show ?case
  proof (cases "visit_h nodesRef linksRef componentsRef h t cmp")
    case (Returned u h1')
    with v have h1': "h1' = h1" by simp
    note d1 = labelsD[OF l1]
    from "4.prems"(4) d1(2) have rest: "\<forall>t \<in> set ts. \<forall>v. t = Some v \<longrightarrow>
        (\<exists>vs. cell h1 nodesRef = Some (VertexArray vs) \<and> v \<in> set vs)"
      by simp
    from "4.IH"(2)[OF Returned[unfolded h1'] d1(1) "4.prems"(2) d1(3) rest] obtain h' where
      "final_store (visit_each_h nodesRef linksRef componentsRef h1 ts cmp) = Some h'"
      "labels base nodesRef linksRef componentsRef h1 h'"
      by blast
    with Returned h1' labels_trans[OF l1] show ?thesis by auto
  next
    case (Threw e h1')
    with v l1 show ?thesis by auto
  next
    case Stuck
    with v show ?thesis by simp
  qed
qed

lemma forEach_visit_h_frame:
  "graph_ok base nodesRef linksRef h \<Longrightarrow> base \<le> componentsRef \<Longrightarrow>
   \<exists>cs. cell h componentsRef = Some (StringArray cs) \<Longrightarrow>
   \<forall>v \<in> set ns. \<exists>vs. cell h nodesRef = Some (VertexArray vs) \<and> v \<in> set vs \<Longrightarrow>
   \<exists>h'. final_store (forEach_visit_h nodesRef linksRef componentsRef ns h) = Some h' \<and>
        labels base nodesRef linksRef componentsRef h h'"
proof (induction ns arbitrary: h)
  case Nil
  then show ?case by (auto intro: labels_refl)
next
  case (Cons node rest)
  from Cons.prems(4) have t: "\<forall>v. Some node = Some v \<longrightarrow>
      (\<exists>vs. cell h nodesRef = Some (VertexArray vs) \<and> v \<in> set vs)"
    by simp
  from visit_h_frame[OF Cons.prems(1-3) t, of None] obtain h1 where
    v: "final_store (visit_h nodesRef linksRef componentsRef h (Some node) None) = Some h1"
    and l1: "labels base nodesRef linksRef componentsRef h h1"
    by blast
  show ?case
  proof (cases "visit_h nodesRef linksRef componentsRef h (Some node) None")
    case (Returned u h1')
    with v have h1': "h1' = h1" by simp
    note d1 = labelsD[OF l1]
    from Cons.prems(4) d1(2) have rest: "\<forall>v \<in> set rest. \<exists>vs.
        cell h1 nodesRef = Some (VertexArray vs) \<and> v \<in> set vs"
      by simp
    from Cons.IH[OF d1(1) Cons.prems(2) d1(3) rest] obtain h' where
      "final_store (forEach_visit_h nodesRef linksRef componentsRef rest h1) = Some h'"
      "labels base nodesRef linksRef componentsRef h1 h'"
      by blast
    with Returned h1' labels_trans[OF l1] show ?thesis by auto
  next
    case (Threw e h1')
    with v l1 show ?thesis by auto
  next
    case Stuck
    with v show ?thesis by simp
  qed
qed

lemma final_store_cases:
  assumes "final_store x = Some h'"
  obtains (Returned) u where "x = Returned u h'" | (Threw) e where "x = Threw e h'"
  using assms by (cases x) auto

lemma identifyComponents_h_frame:
  assumes ok: "graph_ok base nodesRef linksRef h" and len: "base \<le> length h"
    and g: "cell h graph = Some (GraphObj nodesRef linksRef c0)"
  shows "\<exists>h'. final_store (identifyComponents_h graph h) = Some h' \<and>
           builds base nodesRef linksRef h h'"
proof -
  let ?h1 = "h @ [StringArray []]"
  have b1: "builds base nodesRef linksRef h ?h1" by (rule builds_append[OF ok len])
  then have ok1: "graph_ok base nodesRef linksRef ?h1" by (simp add: builds_def)
  from graph_okD(4)[OF ok1] obtain vs where vs: "cell ?h1 nodesRef = Some (VertexArray vs)"
    by blast
  have cs: "\<exists>cs. cell ?h1 (length h) = Some (StringArray cs)" by (simp add: cell_append_new)
  have ns: "\<forall>v \<in> set vs. \<exists>vs. cell ?h1 nodesRef = Some (VertexArray vs) \<and> v \<in> set vs"
    using vs by simp
  from forEach_visit_h_frame[OF ok1 len cs ns] obtain h' where
    run: "final_store (forEach_visit_h nodesRef linksRef (length h) vs ?h1) = Some h'"
    and l: "labels base nodesRef linksRef (length h) ?h1 h'"
    by blast
  from l have b2: "builds base nodesRef linksRef ?h1 h'" by (simp add: labels_def)
  have "final_store (identifyComponents_h graph h) = Some h'"
    using g vs run
    by (cases "forEach_visit_h nodesRef linksRef (length h) vs ?h1")
       (simp_all add: identifyComponents_h_def graph_at_def vertices_at_cell[symmetric] Let_def)
  with builds_trans[OF b1 b2] show ?thesis by blast
qed

lemma buildGraph_h_frame:
  assumes "provider_ok this h"
  shows "\<exists>h'. final_store (buildGraph_h basename this h) = Some h' \<and> unchanged h h'"
proof -
  let ?n = "length h" and ?l = "length h + 1" and ?g = "length h + 3"
  let ?h0 = "h @ [VertexArray [], LinkArray [], StringArray [], GraphObj ?n ?l (length h + 2)]"
  from assms have "map_ok h (fileLinkDatabase_ref this)" by (simp add: provider_ok_def)
  from map_ok_entries[OF this] obtain m where
    m: "map_at h (fileLinkDatabase_ref this) = Some m" and em: "entries_ok (length h) h m"
    by blast
  have e0: "evolves (length h) h ?h0" by (rule evolves_append) simp
  have m0: "map_at ?h0 (fileLinkDatabase_ref this) = Some m"
    using m by (simp add: map_at_cell cell_append_old)
  have ok0: "graph_ok (length h) ?n ?l ?h0"
    by (rule graph_okI[where ls = "[]" and vs = "[]"]) (simp_all add: cell_append)
  have g0: "cell ?h0 ?g = Some (GraphObj ?n ?l (length h + 2))" by (simp add: cell_append)
  have len0: "length h \<le> length ?h0" by simp
  from collect_entries_h_frame[OF ok0 len0 entries_ok_evolves[OF em e0], of basename]
  obtain h1 where c1: "collect_entries_h basename ?n ?l m ?h0 = Some h1"
    and b1: "builds (length h) ?n ?l ?h0 h1"
    by blast
  from b1 have ok1: "graph_ok (length h) ?n ?l h1" by (simp add: builds_def)
  from graph_okD(3)[OF ok1] obtain ls where ls: "links_at h1 ?l = Some ls"
    by (auto simp: links_at_cell)
  have start: "buildGraph_h basename this h =
      (case clear_isolate_h ?n (new_Set [] (map source ls)) h1 of
         Stuck \<Rightarrow> Stuck
       | Threw e h2 \<Rightarrow> Threw e h2
       | Returned u h2 \<Rightarrow>
           (case clear_isolate_h ?n (new_Set [] (map target ls)) h2 of
              Stuck \<Rightarrow> Stuck
            | Threw e h3 \<Rightarrow> Threw e h3
            | Returned u' h3 \<Rightarrow>
                (case identifyComponents_h ?g h3 of
                   Stuck \<Rightarrow> Stuck
                 | Threw e h4 \<Rightarrow> Threw e h4
                 | Returned cs h4 \<Rightarrow>
                     (case graph_at h4 ?g of
                        None \<Rightarrow> Stuck
                      | Some (n, l, c) \<Rightarrow> Returned ?g (h4[?g := GraphObj n l cs])))))"
    using m0 c1 ls by (simp add: buildGraph_h_def Let_def)
  have fin: "\<exists>h'. final_store (buildGraph_h basename this h) = Some h' \<and> evolves (length h) h h'"
  proof -
    from clear_isolate_h_frame[OF ok1, of "new_Set [] (map source ls)"] obtain h2 where
      f2: "final_store (clear_isolate_h ?n (new_Set [] (map source ls)) h1) = Some h2"
      and b2: "builds (length h) ?n ?l h1 h2"
      by blast
    note b02 = builds_trans[OF b1 b2]
    from f2 show ?thesis
    proof (cases rule: final_store_cases)
      case (Threw e)
      with start b02 e0 show ?thesis by (auto simp: builds_def intro: evolves_trans)
    next
      case (Returned u)
      note r2 = this
      from b2 have ok2: "graph_ok (length h) ?n ?l h2" by (simp add: builds_def)
      from clear_isolate_h_frame[OF ok2, of "new_Set [] (map target ls)"] obtain h3 where
        f3: "final_store (clear_isolate_h ?n (new_Set [] (map target ls)) h2) = Some h3"
        and b3: "builds (length h) ?n ?l h2 h3"
        by blast
      note b03 = builds_trans[OF b02 b3]
      from f3 show ?thesis
      proof (cases rule: final_store_cases)
        case (Threw e)
        with start r2 b03 e0 show ?thesis by (auto simp: builds_def intro: evolves_trans)
      next
        case (Returned u')
        note r3 = this
        from b03 have ok3: "graph_ok (length h) ?n ?l h3" and k3: "graphs_kept ?h0 h3"
          and len3: "length h \<le> length h3"
          by (simp_all add: builds_def evolves_def)
        from k3 g0 have g3: "cell h3 ?g = Some (GraphObj ?n ?l (length h + 2))"
          by (simp add: graphs_kept_def)
        from identifyComponents_h_frame[OF ok3 len3 g3] obtain h4 where
          f4: "final_store (identifyComponents_h ?g h3) = Some h4"
          and b4: "builds (length h) ?n ?l h3 h4"
          by blast
        note b04 = builds_trans[OF b03 b4]
        from f4 show ?thesis
        proof (cases rule: final_store_cases)
          case (Threw e)
          with start r2 r3 b04 e0 show ?thesis by (auto simp: builds_def intro: evolves_trans)
        next
          case (Returned cs)
          from b4 g3 have g4: "graph_at h4 ?g = Some (?n, ?l, length h + 2)"
            by (simp add: builds_def graphs_kept_def graph_at_cell)
          have "evolves (length h) h4 (h4[?g := GraphObj ?n ?l cs])"
            by (rule evolves_update) simp
          with b04 e0 have "evolves (length h) h (h4[?g := GraphObj ?n ?l cs])"
            by (auto simp: builds_def intro: evolves_trans)
          with start r2 r3 Returned g4 show ?thesis by simp
        qed
      qed
    qed
  qed
  then show ?thesis by (auto intro: evolves_unchanged)
qed

text \<open>
  Claim C10. In a store where the two fields of the provider refer to maps of arrays of
  strings, each of \<open>buildGraph\<close>, \<open>retrieveInbound\<close> and \<open>retrieveOutbound\<close> runs to its end
  (it returns, or \<open>buildGraph\<close> throws) and leaves every object that existed before the
  call as it was: all its writes go to objects it has allocated itself. So the two maps
  hold the same keys and the same arrays with the same strings as before.
\<close>

theorem read_methods_write_only_new_objects:
  assumes "provider_ok this h"
  shows "(\<exists>h'. final_store (buildGraph_h basename this h) = Some h' \<and> unchanged h h' \<and>
            map_contents h' (fileLinkDatabase_ref this) = map_contents h (fileLinkDatabase_ref this) \<and>
            map_contents h' (idLinkDatabase_ref this) = map_contents h (idLinkDatabase_ref this)) \<and>
         (\<exists>h'. final_store (retrieveInbound_h this sourceFilePath h) = Some h' \<and> unchanged h h' \<and>
            map_contents h' (fileLinkDatabase_ref this) = map_contents h (fileLinkDatabase_ref this) \<and>
            map_contents h' (idLinkDatabase_ref this) = map_contents h (idLinkDatabase_ref this)) \<and>
         (\<exists>h'. final_store (retrieveOutbound_h this sourceFilePath h) = Some h' \<and> unchanged h h' \<and>
            map_contents h' (fileLinkDatabase_ref this) = map_contents h (fileLinkDatabase_ref this) \<and>
            map_contents h' (idLinkDatabase_ref this) = map_contents h (idLinkDatabase_ref this))"
proof -
  from assms have ok: "map_ok h (fileLinkDatabase_ref this)" "map_ok h (idLinkDatabase_ref this)"
    by (simp_all add: provider_ok_def)
  have kept: "map_contents h' (fileLinkDatabase_ref this) = map_contents h (fileLinkDatabase_ref this) \<and>
      map_contents h' (idLinkDatabase_ref this) = map_contents h (idLinkDatabase_ref this)"
    if "unchanged h h'" for h'
    using unchanged_map_contents[OF that ok(1)] unchanged_map_contents[OF that ok(2)] by simp
  from buildGraph_h_frame[OF assms, of basename] kept
  have 1: "\<exists>h'. final_store (buildGraph_h basename this h) = Some h' \<and> unchanged h h' \<and>
      map_contents h' (fileLinkDatabase_ref this) = map_contents h (fileLinkDatabase_ref this) \<and>
      map_contents h' (idLinkDatabase_ref this) = map_contents h (idLinkDatabase_ref this)"
    by blast
  from retrieveInbound_h_frame[OF assms, of sourceFilePath] kept
  have 2: "\<exists>h'. final_store (retrieveInbound_h this sourceFilePath h) = Some h' \<and> unchanged h h' \<and>
      map_contents h' (fileLinkDatabase_ref this) = map_contents h (fileLinkDatabase_ref this) \<and>
      map_contents h' (idLinkDatabase_ref this) = map_contents h (idLinkDatabase_ref this)"
    by fastforce
  from retrieveOutbound_h_frame[OF assms, of sourceFilePath] kept
  have 3: "\<exists>h'. final_store (retrieveOutbound_h this sourceFilePath h) = Some h' \<and> unchanged h h' \<and>
      map_contents h' (fileLinkDatabase_ref this) = map_contents h (fileLinkDatabase_ref this) \<and>
      map_contents h' (idLinkDatabase_ref this) = map_contents h (idLinkDatabase_ref this)"
    by fastforce
  from 1 2 3 show ?thesis by blast
qed

subsection \<open>The stores the class produces\<close>

text \<open>The constructor makes the provider well formed, and \<open>report\<close> and \<open>remove\<close> keep it
  so: every store the class can reach is of this kind.\<close>

lemma map_ok_update_map:
  assumes ok: "map_ok h ma" and m: "map_at h mb = Some m"
    and vals: "\<forall>entry \<in> set m'. strings_at h (snd entry) \<noteq> None"
  shows "map_ok (h[mb := StringMap m']) ma"
proof -
  let ?h = "h[mb := StringMap m']"
  have keep: "strings_at ?h a = strings_at h a" if "strings_at h a \<noteq> None" for a
  proof -
    from that m have "mb \<noteq> a" by (auto simp: strings_at_cell map_at_cell)
    then show ?thesis by (simp add: strings_at_def cell_other)
  qed
  show ?thesis
  proof (cases "ma = mb")
    case True
    from m have "map_at ?h mb = Some m'" by (simp add: map_at_cell cell_same)
    with True vals keep show ?thesis by (simp add: map_ok_def list_all_iff)
  next
    case False
    then have "map_at ?h ma = map_at h ma" by (simp add: map_at_def cell_other)
    with ok keep show ?thesis by (auto simp: map_ok_def list_all_iff split: option.splits)
  qed
qed

lemma map_ok_update_strings:
  assumes ok: "map_ok h ma" and a: "strings_at h a \<noteq> None"
  shows "map_ok (h[a := StringArray xs]) ma"
proof -
  let ?h = "h[a := StringArray xs]"
  from ok obtain m where m: "map_at h ma = Some m"
    and all: "\<forall>entry \<in> set m. strings_at h (snd entry) \<noteq> None"
    by (auto simp: map_ok_def list_all_iff split: option.splits)
  from m a have "a \<noteq> ma" by (auto simp: strings_at_cell map_at_cell)
  then have m': "map_at ?h ma = Some m" using m by (simp add: map_at_def cell_other)
  have "strings_at ?h b \<noteq> None" if "strings_at h b \<noteq> None" for b
    using that a by (cases "b = a") (auto simp: strings_at_cell cell_same cell_other)
  with m' all show ?thesis by (simp add: map_ok_def list_all_iff)
qed

lemma map_ok_append: "map_ok h ma \<Longrightarrow> map_ok (h @ xs) ma"
  by (auto simp: map_ok_def list_all_iff map_at_cell strings_at_cell cell_append_old
      split: option.splits)

lemma resolve_links_h_ok:
  "strings_at h resolved \<noteq> None \<Longrightarrow> map_ok h ma \<Longrightarrow> map_ok h mb \<Longrightarrow>
   \<exists>h'. resolve_links_h findExact resolved outboundLinks h = Some h' \<and>
        strings_at h' resolved \<noteq> None \<and> map_ok h' ma \<and> map_ok h' mb"
proof (induction outboundLinks arbitrary: h)
  case Nil
  then show ?case by simp
next
  case (Cons link outboundLinks)
  show ?case
  proof (cases "findExact link")
    case None
    with Cons show ?thesis by simp
  next
    case (Some found)
    from Cons.prems(1) obtain xs where xs: "strings_at h resolved = Some xs" by auto
    let ?h = "h[resolved := StringArray (xs @ [found])]"
    have "strings_at ?h resolved \<noteq> None" using xs by (simp add: strings_at_cell cell_same)
    from Cons.IH[OF this map_ok_update_strings[OF Cons.prems(2,1)]
        map_ok_update_strings[OF Cons.prems(3,1)]] Some xs
    show ?thesis by (simp add: push_string_def)
  qed
qed

lemma map_set_values: "entry \<in> set (map_set m k a) \<Longrightarrow> snd entry = a \<or> entry \<in> set m"
  by (induction m k a rule: map_set.induct) (auto split: if_splits)

lemma map_delete_values: "entry \<in> set (map_delete m k) \<Longrightarrow> entry \<in> set m"
  by (induction m k rule: map_delete.induct) (auto split: if_splits)

lemma new_LinkProvider_h_ok: "provider_ok (fst (new_LinkProvider_h h)) (snd (new_LinkProvider_h h))"
  by (simp add: new_LinkProvider_h_def provider_ok_def map_ok_def map_at_def cell_append)

lemma report_h_ok:
  assumes "provider_ok this h"
  shows "\<exists>h'. report_h findExact this sourcePath outboundLinks sourceID h = Returned () h' \<and>
           provider_ok this h'"
proof -
  let ?f = "fileLinkDatabase_ref this" and ?i = "idLinkDatabase_ref this"
  let ?h0 = "h @ [StringArray []]"
  from assms have ok: "map_ok ?h0 ?f" "map_ok ?h0 ?i"
    by (simp_all add: provider_ok_def map_ok_append)
  have r0: "strings_at ?h0 (length h) \<noteq> None" by (simp add: strings_at_def cell_append)
  from resolve_links_h_ok[OF r0 ok, of findExact outboundLinks] obtain h1 where
    run: "resolve_links_h findExact (length h) outboundLinks ?h0 = Some h1"
    and r1: "strings_at h1 (length h) \<noteq> None" and ok1: "map_ok h1 ?f" "map_ok h1 ?i"
    by blast
  have set_ok: "\<exists>h''. map_set_h ma k (length h) h' = Some h'' \<and> strings_at h'' (length h) \<noteq> None \<and>
      map_ok h'' ?f \<and> map_ok h'' ?i"
    if a: "strings_at h' (length h) \<noteq> None" and f: "map_ok h' ?f" and i: "map_ok h' ?i"
      and ma: "map_ok h' ma" for h' ma k
  proof -
    from ma obtain m where m: "map_at h' ma = Some m"
      and all: "\<forall>entry \<in> set m. strings_at h' (snd entry) \<noteq> None"
      by (auto simp: map_ok_def list_all_iff split: option.splits)
    have vals: "\<forall>entry \<in> set (map_set m k (length h)). strings_at h' (snd entry) \<noteq> None"
      using all a map_set_values[of _ m k "length h"] by metis
    let ?h = "h'[ma := StringMap (map_set m k (length h))]"
    from m a have "ma \<noteq> length h" by (auto simp: strings_at_cell map_at_cell)
    then have "strings_at ?h (length h) = strings_at h' (length h)"
      by (simp add: strings_at_def cell_other)
    with a m map_ok_update_map[OF f m vals] map_ok_update_map[OF i m vals] show ?thesis
      by (simp add: map_set_h_def)
  qed
  from set_ok[OF r1 ok1 ok1(1), of sourcePath] obtain h2 where
    s2: "map_set_h ?f sourcePath (length h) h1 = Some h2"
    and r2: "strings_at h2 (length h) \<noteq> None" and ok2: "map_ok h2 ?f" "map_ok h2 ?i"
    by blast
  show ?thesis
  proof (cases "normalize_id sourceID")
    case None
    with run s2 ok2 show ?thesis by (simp add: report_h_def provider_ok_def Let_def)
  next
    case (Some i)
    from set_ok[OF r2 ok2 ok2(2), of i] obtain h3 where
      "map_set_h ?i i (length h) h2 = Some h3" "map_ok h3 ?f" "map_ok h3 ?i"
      by blast
    with Some run s2 show ?thesis by (simp add: report_h_def provider_ok_def Let_def)
  qed
qed

lemma remove_h_ok:
  assumes "provider_ok this h"
  shows "\<exists>h'. remove_h this sourcePath sourceID h = Returned () h' \<and> provider_ok this h'"
proof -
  let ?f = "fileLinkDatabase_ref this" and ?i = "idLinkDatabase_ref this"
  have del_ok: "\<exists>h''. map_delete_h ma k h' = Some h'' \<and> map_ok h'' ?f \<and> map_ok h'' ?i"
    if f: "map_ok h' ?f" and i: "map_ok h' ?i" and ma: "map_ok h' ma" for h' ma k
  proof -
    from ma obtain m where m: "map_at h' ma = Some m"
      and all: "\<forall>entry \<in> set m. strings_at h' (snd entry) \<noteq> None"
      by (auto simp: map_ok_def list_all_iff split: option.splits)
    have vals: "\<forall>entry \<in> set (map_delete m k). strings_at h' (snd entry) \<noteq> None"
      using all map_delete_values[of _ m k] by blast
    from m f i map_ok_update_map[OF f m vals] map_ok_update_map[OF i m vals] show ?thesis
      by (simp add: map_delete_h_def)
  qed
  from assms have ok: "map_ok h ?f" "map_ok h ?i" by (simp_all add: provider_ok_def)
  from del_ok[OF ok ok(1), of sourcePath] obtain h1 where
    d1: "map_delete_h ?f sourcePath h = Some h1" and ok1: "map_ok h1 ?f" "map_ok h1 ?i"
    by blast
  show ?thesis
  proof (cases "normalize_id sourceID")
    case None
    with d1 ok1 show ?thesis by (simp add: remove_h_def provider_ok_def Let_def)
  next
    case (Some i)
    from del_ok[OF ok1 ok1(2), of i] obtain h2 where
      "map_delete_h ?i i h1 = Some h2" "map_ok h2 ?f" "map_ok h2 ?i"
      by blast
    with Some d1 show ?thesis by (simp add: remove_h_def provider_ok_def Let_def)
  qed
qed

lemma unchanged_take: "unchanged h h' \<Longrightarrow> take (length h) h' = h"
  by (auto simp: unchanged_def intro: nth_equalityI)

text \<open>An instance, from the constructor on: \<open>report a.md [b.md, x] id1\<close> puts one array
  (at address 2) into both maps, \<open>report b.md []\<close> adds an empty one; \<open>buildGraph\<close> on that
  store leaves its four objects and the contents of both maps as they are.\<close>

theorem read_methods_write_only_new_objects_witness:
  "report_h (known_paths [''b.md'']) \<lparr>fileLinkDatabase_ref = 0, idLinkDatabase_ref = 1\<rparr>
     ''a.md'' [''b.md'', ''x''] (Some ''id1'') (snd (new_LinkProvider_h [])) =
     Returned () [StringMap [(''a.md'', 2)], StringMap [(''id1'', 2)], StringArray [''b.md'']] \<and>
   report_h (known_paths [''b.md'']) \<lparr>fileLinkDatabase_ref = 0, idLinkDatabase_ref = 1\<rparr>
     ''b.md'' [] None [StringMap [(''a.md'', 2)], StringMap [(''id1'', 2)], StringArray [''b.md'']] =
     Returned () [StringMap [(''a.md'', 2), (''b.md'', 3)], StringMap [(''id1'', 2)],
                  StringArray [''b.md''], StringArray []] \<and>
   (\<exists>h'. final_store (buildGraph_h last_segment \<lparr>fileLinkDatabase_ref = 0, idLinkDatabase_ref = 1\<rparr>
             [StringMap [(''a.md'', 2), (''b.md'', 3)], StringMap [(''id1'', 2)],
              StringArray [''b.md''], StringArray []]) = Some h' \<and>
          take 4 h' = [StringMap [(''a.md'', 2), (''b.md'', 3)], StringMap [(''id1'', 2)],
                       StringArray [''b.md''], StringArray []] \<and>
          map_contents h' 0 = Some [(''a.md'', [''b.md'']), (''b.md'', [])] \<and>
          map_contents h' 1 = Some [(''id1'', [''b.md''])])"
proof -
  let ?p = "\<lparr>fileLinkDatabase_ref = 0, idLinkDatabase_ref = 1\<rparr>"
  let ?h = "[StringMap [(''a.md'', 2), (''b.md'', 3)], StringMap [(''id1'', 2)],
             StringArray [''b.md''], StringArray []]"
  have ok: "provider_ok ?p ?h"
    by (simp add: provider_ok_def map_ok_def map_at_def strings_at_def cell_def)
  have c0: "map_contents ?h 0 = Some [(''a.md'', [''b.md'']), (''b.md'', [])]"
    and c1: "map_contents ?h 1 = Some [(''id1'', [''b.md''])]"
    by (simp_all add: map_contents_def map_at_def strings_at_def cell_def)
  from read_methods_write_only_new_objects[OF ok, of last_segment] obtain h' where
    f: "final_store (buildGraph_h last_segment ?p ?h) = Some h'" and u: "unchanged ?h h'"
    and m0: "map_contents h' (fileLinkDatabase_ref ?p) = map_contents ?h (fileLinkDatabase_ref ?p)"
    and m1: "map_contents h' (idLinkDatabase_ref ?p) = map_contents ?h (idLinkDatabase_ref ?p)"
    by blast
  have "length ?h = 4" by simp
  with unchanged_take[OF u] have t: "take 4 h' = ?h" by (simp only:)
  from m0 c0 have m0': "map_contents h' 0 = Some [(''a.md'', [''b.md'']), (''b.md'', [])]" by simp
  from m1 c1 have m1': "map_contents h' 1 = Some [(''id1'', [''b.md''])]" by simp
  have r1: "report_h (known_paths [''b.md'']) ?p ''a.md'' [''b.md'', ''x''] (Some ''id1'')
      (snd (new_LinkProvider_h [])) =
      Returned () [StringMap [(''a.md'', 2)], StringMap [(''id1'', 2)], StringArray [''b.md'']]"
    by code_simp
  have r2: "report_h (known_paths [''b.md'']) ?p ''b.md'' [] None
      [StringMap [(''a.md'', 2)], StringMap [(''id1'', 2)], StringArray [''b.md'']] =
      Returned () ?h"
    by code_simp
  from r1 r2 f t m0' m1' show ?thesis by blast
qed

end
